theory Spec2Isabelle
  imports Complex_Main "HOL-Library.Multiset"
begin

section \<open>Polling places: the simulation of \<^verbatim>\<open>simulate.py\<close>\<close>

text \<open>
  The embedding follows \<^verbatim>\<open>src/simulate.py\<close> function by function.

  \<^item> Python floats (times, durations, rates, waits) are modelled as \<open>real\<close>: the
    properties below rest on the order of the times and on the shape of the expressions
    the code evaluates, not on rounding.
  \<^item> A call either returns, raises, or waits forever on the bounded queue (the
    \<^verbatim>\<open>queue.PriorityQueue\<close> methods are called with their default \<^verbatim>\<open>block=True\<close>
    and no timeout, in a program with a single thread): the three cases of \<open>outcome\<close>.
    The operations of the booths also give the pool they leave, in each of the cases.
  \<^item> \<^verbatim>\<open>util.gen_voter_parameters\<close> is not among the sources. After
    \<^verbatim>\<open>random.seed(seed)\<close>, its successive calls with fixed arguments return a
    sequence of pairs (gap, voting duration) determined by the arguments and the seed;
    that sequence is the parameter \<open>gen\<close> of the model, and the calls are taken to
    return.
\<close>

subsection \<open>Outcomes of a call\<close>

datatype exn = TypeError | ZeroDivisionError | IndexError

datatype 'a outcome = Returns 'a | Raises exn | Blocks

definition obind :: "'a outcome \<Rightarrow> ('a \<Rightarrow> 'b outcome) \<Rightarrow> 'b outcome" where
  "obind m f = (case m of Returns x \<Rightarrow> f x | Raises e \<Rightarrow> Raises e | Blocks \<Rightarrow> Blocks)"

definition raises :: "'a outcome \<Rightarrow> bool" where
  "raises m = (case m of Raises e \<Rightarrow> True | Returns x \<Rightarrow> False | Blocks \<Rightarrow> False)"

subsection \<open>class Voter\<close>

record Voter =
  arrival_time :: real
  voting_duration :: real
  start_time :: "real option"
  departure_time :: "real option"

definition Voter_init :: "real \<Rightarrow> real \<Rightarrow> Voter" where
  "Voter_init arrival duration =
     \<lparr>arrival_time = arrival, voting_duration = duration,
      start_time = None, departure_time = None\<rparr>"

definition get_wait :: "Voter \<Rightarrow> real option" where
  "get_wait v =
     (case start_time v of None \<Rightarrow> None | Some s \<Rightarrow> Some (s - arrival_time v))"

subsection \<open>class VotingBooths\<close>

text \<open>
  The pool is a \<^verbatim>\<open>queue.PriorityQueue(num_booths)\<close>: a bound \<open>maxsize\<close> and the
  array of its heap, \<^verbatim>\<open>self.queue\<close>, whose entries are departure times of voters,
  set or unset (\<^verbatim>\<open>None\<close>). A bound that is not positive means no bound.

  The queue puts with \<^verbatim>\<open>heapq.heappush\<close> and gets with \<^verbatim>\<open>heapq.heappop\<close>. They
  are modelled on the array, as CPython runs them (the implementation in C, which
  exchanges entries in place): \<^verbatim>\<open>heappush\<close> appends the item and moves it up while
  it is less than its parent (\<open>siftdown\<close>); \<^verbatim>\<open>heappop\<close> of a single entry returns it,
  and otherwise takes the last entry off, returns the first one and puts the last one
  in its place, moves it down to a leaf along the smaller children and then up again
  (\<open>siftup\<close>). A comparison with an unset time raises \<^verbatim>\<open>TypeError\<close> and leaves the
  array as it is at that moment.
\<close>

record VotingBooths =
  maxsize :: int
  entries :: "real option list"

definition VotingBooths_init :: "int \<Rightarrow> VotingBooths" where
  "VotingBooths_init n = \<lparr>maxsize = n, entries = []\<rparr>"

definition less_than :: "real option \<Rightarrow> real option \<Rightarrow> bool option" where
  "less_than a b =
     (case a of
        None \<Rightarrow> None
      | Some x \<Rightarrow> (case b of None \<Rightarrow> None | Some y \<Rightarrow> Some (x < y)))"

definition parent :: "nat \<Rightarrow> nat" where
  "parent pos = (pos - 1) div 2"

function siftdown ::
  "real option list \<Rightarrow> nat \<Rightarrow> nat \<Rightarrow> unit outcome \<times> real option list" where
  "siftdown heap startpos pos =
     (if pos > startpos then
        (let parentpos = parent pos
         in case less_than (heap ! pos) (heap ! parentpos) of
              None \<Rightarrow> (Raises TypeError, heap)
            | Some False \<Rightarrow> (Returns (), heap)
            | Some True \<Rightarrow>
                siftdown (heap[parentpos := heap ! pos, pos := heap ! parentpos])
                  startpos parentpos)
      else (Returns (), heap))"
  by pat_completeness auto
termination
  by (relation "measure (\<lambda>(heap, startpos, pos). pos)") (auto simp: parent_def)

function siftup ::
  "real option list \<Rightarrow> nat \<Rightarrow> nat \<Rightarrow> unit outcome \<times> real option list" where
  "siftup heap startpos pos =
     (if pos < length heap div 2 then
        (let childpos = 2 * pos + 1
         in case (if childpos + 1 < length heap
                  then less_than (heap ! childpos) (heap ! (childpos + 1))
                  else Some True) of
              None \<Rightarrow> (Raises TypeError, heap)
            | Some left \<Rightarrow>
                (let childpos = (if left then childpos else childpos + 1)
                 in siftup (heap[childpos := heap ! pos, pos := heap ! childpos])
                      startpos childpos))
      else siftdown heap startpos pos)"
  by pat_completeness auto
termination
  by (relation "measure (\<lambda>(heap, startpos, pos). length heap - pos)") auto

declare siftdown.simps [simp del]

declare siftup.simps [simp del]

definition heappush :: "real option \<Rightarrow> real option list \<Rightarrow> unit outcome \<times> real option list" where
  "heappush item heap = siftdown (heap @ [item]) 0 (length heap)"

definition heappop :: "real option list \<Rightarrow> real option outcome \<times> real option list" where
  "heappop heap =
     (if heap = [] then (Raises IndexError, heap)
      else
        (let lastelt = last heap; heap1 = butlast heap
         in if heap1 = [] then (Returns lastelt, heap1)
            else
              (let returnitem = heap1 ! 0
               in case siftup (heap1[0 := lastelt]) 0 0 of
                    (Returns u, heap2) \<Rightarrow> (Returns returnitem, heap2)
                  | (Raises x, heap2) \<Rightarrow> (Raises x, heap2)
                  | (Blocks, heap2) \<Rightarrow> (Blocks, heap2))))"

text \<open>
  \<^verbatim>\<open>Queue.put\<close> and \<^verbatim>\<open>Queue.get\<close> start with a loop:
  \<^verbatim>\<open>while self._qsize() >= self.maxsize: self.not_full.wait()\<close> (when the bound is
  positive) and \<^verbatim>\<open>while not self._qsize(): self.not_empty.wait()\<close>. A wait ends
  when another thread has changed the queue; there is none, so the loop meets the same
  queue again. A loop that does not end has the value \<open>None\<close>.
\<close>

partial_function (option) wait_not_full :: "VotingBooths \<Rightarrow> VotingBooths option" where
  "wait_not_full b =
     (if int (length (entries b)) \<ge> maxsize b then wait_not_full b else Some b)"

partial_function (option) wait_not_empty :: "VotingBooths \<Rightarrow> VotingBooths option" where
  "wait_not_empty b =
     (if \<not> 0 < length (entries b) then wait_not_empty b else Some b)"

declare wait_not_full.simps [code]

declare wait_not_empty.simps [code]

definition queue_put :: "real option \<Rightarrow> VotingBooths \<Rightarrow> unit outcome \<times> VotingBooths" where
  "queue_put item b =
     (case (if 0 < maxsize b then wait_not_full b else Some b) of
        None \<Rightarrow> (Blocks, b)
      | Some b1 \<Rightarrow>
          (case heappush item (entries b1) of (r, heap) \<Rightarrow> (r, b1\<lparr>entries := heap\<rparr>)))"

definition queue_get :: "VotingBooths \<Rightarrow> real option outcome \<times> VotingBooths" where
  "queue_get b =
     (case wait_not_empty b of
        None \<Rightarrow> (Blocks, b)
      | Some b1 \<Rightarrow>
          (case heappop (entries b1) of (r, heap) \<Rightarrow> (r, b1\<lparr>entries := heap\<rparr>)))"

definition full :: "VotingBooths \<Rightarrow> bool" where
  "full b = (0 < maxsize b \<and> maxsize b \<le> int (length (entries b)))"

definition enter :: "Voter \<Rightarrow> VotingBooths \<Rightarrow> unit outcome \<times> VotingBooths" where
  "enter voter b = queue_put (departure_time voter) b"

definition depart :: "VotingBooths \<Rightarrow> real option outcome \<times> VotingBooths" where
  "depart b = queue_get b"

subsection \<open>class Precinct\<close>

record Precinct =
  name :: string
  hours_open :: int
  max_num_voters :: int
  num_booths :: int
  arrival_rate :: real
  voting_duration_rate :: real

type_synonym generator = "real \<Rightarrow> real \<Rightarrow> real \<Rightarrow> real \<Rightarrow> int \<Rightarrow> nat \<Rightarrow> real \<times> real"

text \<open>
  \<open>gen arrival_rate voting_duration_rate percent_straight_ticket
  straight_ticket_duration seed k\<close> is what the call number \<open>k\<close> (from 0) of
  \<^verbatim>\<open>util.gen_voter_parameters\<close> returns after \<^verbatim>\<open>random.seed(seed)\<close>.
\<close>

definition next_voter ::
  "Precinct \<Rightarrow> generator \<Rightarrow> int \<Rightarrow> nat \<Rightarrow> real \<Rightarrow> real \<Rightarrow> real \<Rightarrow> Voter" where
  "next_voter p gen seed k time percent_straight_ticket straight_ticket_duration =
     (let (gap, duration) =
            gen (arrival_rate p) (voting_duration_rate p)
              percent_straight_ticket straight_ticket_duration seed k;
          arrival = time + gap
      in Voter_init arrival duration)"

definition simulate_single_vote ::
  "Voter \<Rightarrow> VotingBooths \<Rightarrow> (Voter \<times> VotingBooths) outcome" where
  "simulate_single_vote voter booths =
     obind
       (if \<not> full booths then Returns (arrival_time voter, booths)
        else
          (case depart booths of
             (Returns earliest_departure, booths1) \<Rightarrow>
               (case earliest_departure of
                  None \<Rightarrow> Raises TypeError
                | Some e \<Rightarrow>
                    if e < arrival_time voter then Returns (arrival_time voter, booths1)
                    else Returns (e, booths1))
           | (Raises x, booths1) \<Rightarrow> Raises x
           | (Blocks, booths1) \<Rightarrow> Blocks))
       (\<lambda>(start, booths1).
          (let voter1 = voter\<lparr>start_time := Some start\<rparr>;
               voter2 = voter1\<lparr>departure_time := Some (start + voting_duration voter1)\<rparr>
           in case enter voter2 booths1 of
                (Returns u, booths2) \<Rightarrow> Returns (voter2, booths2)
              | (Raises x, booths2) \<Rightarrow> Raises x
              | (Blocks, booths2) \<Rightarrow> Blocks))"

text \<open>
  The loop of \<^verbatim>\<open>simulate\<close>: its variables, and \<open>stopped\<close> for the
  \<^verbatim>\<open>break\<close>. \<open>loop_after \<dots> i\<close> is the state after \<open>i\<close> rounds of
  \<^verbatim>\<open>for i in range(self.max_num_voters)\<close>; round \<open>i\<close> makes call number \<open>i\<close> of
  the generator.
\<close>

record loop_state =
  cur_time :: real
  voters :: "Voter list"
  booths :: VotingBooths
  stopped :: bool

definition closing_time :: "Precinct \<Rightarrow> real" where
  "closing_time p = of_int (hours_open p * 60)"

definition loop_init :: "Precinct \<Rightarrow> loop_state" where
  "loop_init p =
     \<lparr>cur_time = 0, voters = [], booths = VotingBooths_init (num_booths p),
      stopped = False\<rparr>"

definition loop_body ::
  "Precinct \<Rightarrow> generator \<Rightarrow> real \<Rightarrow> real \<Rightarrow> int \<Rightarrow> nat \<Rightarrow> loop_state
     \<Rightarrow> loop_state outcome" where
  "loop_body p gen percent_straight_ticket straight_ticket_duration seed i st =
     (let voter = next_voter p gen seed i (cur_time st)
                    percent_straight_ticket straight_ticket_duration;
          time = arrival_time voter
      in if time > closing_time p
         then Returns (st\<lparr>cur_time := time, stopped := True\<rparr>)
         else obind (simulate_single_vote voter (booths st)) (\<lambda>(voter', booths').
                Returns (st\<lparr>cur_time := time, voters := voters st @ [voter'],
                             booths := booths'\<rparr>)))"

primrec loop_after ::
  "Precinct \<Rightarrow> generator \<Rightarrow> real \<Rightarrow> real \<Rightarrow> int \<Rightarrow> nat \<Rightarrow> loop_state outcome" where
  "loop_after p gen pst std seed 0 = Returns (loop_init p)"
| "loop_after p gen pst std seed (Suc i) =
     obind (loop_after p gen pst std seed i) (\<lambda>st.
       if stopped st then Returns st else loop_body p gen pst std seed i st)"

definition simulate ::
  "Precinct \<Rightarrow> generator \<Rightarrow> real \<Rightarrow> real \<Rightarrow> int \<Rightarrow> Voter list outcome" where
  "simulate p gen percent_straight_ticket straight_ticket_duration seed =
     obind (loop_after p gen percent_straight_ticket straight_ticket_duration seed
              (nat (max_num_voters p)))
       (\<lambda>st. Returns (voters st))"

subsection \<open>find_avg_wait_time\<close>

text \<open>
  The precinct dictionary, with the keys \<^verbatim>\<open>find_avg_wait_time\<close> reads (the loader
  of \<^verbatim>\<open>util\<close> supplies each of them).
\<close>

record precinct_dict =
  cfg_name :: string
  cfg_hours_open :: int
  cfg_num_voters :: int
  cfg_num_booths :: int
  cfg_arrival_rate :: real
  cfg_voting_duration_rate :: real
  cfg_straight_ticket_duration :: real

definition Precinct_init :: "precinct_dict \<Rightarrow> Precinct" where
  "Precinct_init d =
     \<lparr>name = cfg_name d, hours_open = cfg_hours_open d,
      max_num_voters = cfg_num_voters d, num_booths = cfg_num_booths d,
      arrival_rate = cfg_arrival_rate d,
      voting_duration_rate = cfg_voting_duration_rate d\<rparr>"

text \<open>
  \<^verbatim>\<open>sum\<close> adds from 0, left to right, and cannot add \<^verbatim>\<open>None\<close>;
  \<^verbatim>\<open>xs[i]\<close> counts a negative index from the end and raises out of range.
\<close>

fun py_sum :: "real \<Rightarrow> real option list \<Rightarrow> real outcome" where
  "py_sum acc [] = Returns acc"
| "py_sum acc (None # ws) = Raises TypeError"
| "py_sum acc (Some w # ws) = py_sum (acc + w) ws"

definition py_index :: "'a list \<Rightarrow> int \<Rightarrow> 'a outcome" where
  "py_index xs i =
     (if 0 \<le> i \<and> i < int (length xs) then Returns (xs ! nat i)
      else if i < 0 \<and> 0 \<le> int (length xs) + i then Returns (xs ! nat (int (length xs) + i))
      else Raises IndexError)"

definition trial_avg :: "Voter list \<Rightarrow> real outcome" where
  "trial_avg vs =
     obind (py_sum 0 (map get_wait vs)) (\<lambda>total.
       if length vs = 0 then Raises ZeroDivisionError
       else Returns (total / real (length vs)))"

text \<open>
  \<open>avg_wait_loop \<dots> i\<close> is \<^verbatim>\<open>avg_wait_lst\<close> after \<open>i\<close> rounds of
  \<^verbatim>\<open>for i in range(ntrials)\<close>.
\<close>

primrec avg_wait_loop ::
  "generator \<Rightarrow> precinct_dict \<Rightarrow> real \<Rightarrow> int \<Rightarrow> nat \<Rightarrow> real list outcome" where
  "avg_wait_loop gen d pst initial_seed 0 = Returns []"
| "avg_wait_loop gen d pst initial_seed (Suc i) =
     obind (avg_wait_loop gen d pst initial_seed i) (\<lambda>avg_wait_lst.
     obind (simulate (Precinct_init d) gen pst (cfg_straight_ticket_duration d)
              (initial_seed + int i)) (\<lambda>vs.
     obind (trial_avg vs) (\<lambda>avg_wait.
       Returns (avg_wait_lst @ [avg_wait]))))"

definition median_of :: "real list \<Rightarrow> int \<Rightarrow> real outcome" where
  "median_of avg_wait_lst ntrials = py_index (sort avg_wait_lst) (ntrials div 2)"

definition find_avg_wait_time ::
  "generator \<Rightarrow> precinct_dict \<Rightarrow> real \<Rightarrow> int \<Rightarrow> int \<Rightarrow> real outcome" where
  "find_avg_wait_time gen d percent_straight_ticket ntrials initial_seed =
     obind (avg_wait_loop gen d percent_straight_ticket initial_seed (nat ntrials))
       (\<lambda>avg_wait_lst. median_of avg_wait_lst ntrials)"

subsection \<open>find_percent_split_ticket\<close>

text \<open>
  \<^verbatim>\<open>for i in range(11)\<close> with its \<^verbatim>\<open>break\<close>, over the rest of the range. The
  function returns from the loop's variables when \<^verbatim>\<open>found\<close> is set and the pair
  \<^verbatim>\<open>(1, None)\<close> when the range is used up.
\<close>

fun sweep ::
  "generator \<Rightarrow> precinct_dict \<Rightarrow> real \<Rightarrow> int \<Rightarrow> int \<Rightarrow> nat list
     \<Rightarrow> (real \<times> real option) outcome" where
  "sweep gen d target_wait_time ntrials seed [] = Returns (1, None)"
| "sweep gen d target_wait_time ntrials seed (i # rest) =
     (let percent_split_ticket = real i / 10;
          percent_straight_ticket = 1 - percent_split_ticket
      in obind (find_avg_wait_time gen d percent_straight_ticket ntrials seed)
           (\<lambda>avg_wait_time.
              if avg_wait_time > target_wait_time
              then Returns (percent_split_ticket, Some avg_wait_time)
              else sweep gen d target_wait_time ntrials seed rest))"

definition find_percent_split_ticket ::
  "generator \<Rightarrow> precinct_dict \<Rightarrow> real \<Rightarrow> int \<Rightarrow> int \<Rightarrow> (real \<times> real option) outcome" where
  "find_percent_split_ticket gen d target_wait_time ntrials seed =
     sweep gen d target_wait_time ntrials seed [0..<11]"

subsection \<open>Notions used to state the properties\<close>

text \<open>
  A pool is within its capacity when its queue is unbounded or holds no more entries than
  its bound; \<open>departures\<close> are the departure times in its array, when all are set. A
  voter is resolved when both scheduling fields are set, the start is not before the
  arrival and the departure is the start plus the voting duration. \<open>draw\<close> is the pair
  generated for voter number \<open>k\<close> of a trial and \<open>arrival\<close> that voter's arrival
  time: the previous arrival time plus the gap, from 0.
\<close>

definition within_capacity :: "VotingBooths \<Rightarrow> bool" where
  "within_capacity b = (maxsize b \<le> 0 \<or> int (length (entries b)) \<le> maxsize b)"

definition departures :: "VotingBooths \<Rightarrow> real list" where
  "departures b = map the (entries b)"

text \<open>
  On an array of floats no comparison raises, and \<^verbatim>\<open>heappush\<close> and
  \<^verbatim>\<open>heappop\<close> are the functions \<open>fheappush\<close> and \<open>fheappop\<close> on the array of the
  times. \<open>heap_ok\<close> is the heap property: no entry is less than its parent. \<open>up_inv\<close>
  and \<open>down_inv\<close> are what holds of the array while an entry moves up and down.
\<close>

function fsiftdown :: "real list \<Rightarrow> nat \<Rightarrow> real list" where
  "fsiftdown xs pos =
     (if pos > 0 \<and> xs ! pos < xs ! parent pos
      then fsiftdown (xs[parent pos := xs ! pos, pos := xs ! parent pos]) (parent pos)
      else xs)"
  by pat_completeness auto
termination
  by (relation "measure (\<lambda>(xs, pos). pos)") (auto simp: parent_def)

definition smaller_child :: "real list \<Rightarrow> nat \<Rightarrow> nat" where
  "smaller_child xs pos =
     (if 2 * pos + 2 < length xs \<and> \<not> xs ! (2 * pos + 1) < xs ! (2 * pos + 2)
      then 2 * pos + 2 else 2 * pos + 1)"

function fsiftup :: "real list \<Rightarrow> nat \<Rightarrow> real list" where
  "fsiftup xs pos =
     (if pos < length xs div 2
      then fsiftup (xs[smaller_child xs pos := xs ! pos, pos := xs ! smaller_child xs pos])
             (smaller_child xs pos)
      else fsiftdown xs pos)"
  by pat_completeness auto
termination
  by (relation "measure (\<lambda>(xs, pos). length xs - pos)") (auto simp: smaller_child_def)

declare fsiftdown.simps [simp del]

declare fsiftup.simps [simp del]

definition fheappush :: "real \<Rightarrow> real list \<Rightarrow> real list" where
  "fheappush d xs = fsiftdown (xs @ [d]) (length xs)"

definition fheappop :: "real list \<Rightarrow> real list" where
  "fheappop xs =
     (if butlast xs = [] then [] else fsiftup ((butlast xs)[0 := last xs]) 0)"

definition heap_ok :: "real list \<Rightarrow> bool" where
  "heap_ok xs = (\<forall>i. 0 < i \<and> i < length xs \<longrightarrow> xs ! parent i \<le> xs ! i)"

definition up_inv :: "real list \<Rightarrow> nat \<Rightarrow> bool" where
  "up_inv xs pos =
     (pos < length xs
      \<and> (\<forall>i. 0 < i \<and> i < length xs \<and> i \<noteq> pos \<longrightarrow> xs ! parent i \<le> xs ! i)
      \<and> (\<forall>c. 0 < pos \<and> 0 < c \<and> c < length xs \<and> parent c = pos
             \<longrightarrow> xs ! parent pos \<le> xs ! c))"

definition down_inv :: "real list \<Rightarrow> nat \<Rightarrow> bool" where
  "down_inv xs pos =
     (pos < length xs
      \<and> (\<forall>i. 0 < i \<and> i < length xs \<and> i \<noteq> pos \<and> parent i \<noteq> pos
             \<longrightarrow> xs ! parent i \<le> xs ! i)
      \<and> (\<forall>c. 0 < pos \<and> 0 < c \<and> c < length xs \<and> parent c = pos
             \<longrightarrow> xs ! parent pos \<le> xs ! c))"

definition resolved :: "Voter \<Rightarrow> bool" where
  "resolved v =
     (case start_time v of
        None \<Rightarrow> False
      | Some s \<Rightarrow> arrival_time v \<le> s \<and> departure_time v = Some (s + voting_duration v))"

definition draw :: "Precinct \<Rightarrow> generator \<Rightarrow> real \<Rightarrow> real \<Rightarrow> int \<Rightarrow> nat \<Rightarrow> real \<times> real" where
  "draw p gen pst std seed k = gen (arrival_rate p) (voting_duration_rate p) pst std seed k"

primrec arrival :: "Precinct \<Rightarrow> generator \<Rightarrow> real \<Rightarrow> real \<Rightarrow> int \<Rightarrow> nat \<Rightarrow> real" where
  "arrival p gen pst std seed 0 = 0 + fst (draw p gen pst std seed 0)"
| "arrival p gen pst std seed (Suc k) =
     arrival p gen pst std seed k + fst (draw p gen pst std seed (Suc k))"

definition state_ok :: "Precinct \<Rightarrow> nat \<Rightarrow> loop_state \<Rightarrow> bool" where
  "state_ok p i st =
     (maxsize (booths st) = num_booths p \<and> within_capacity (booths st)
      \<and> None \<notin> set (entries (booths st)) \<and> heap_ok (departures (booths st))
      \<and> length (voters st) \<le> i \<and> list_all resolved (voters st)
      \<and> mset (entries (booths st)) \<subseteq># mset (map departure_time (voters st))
      \<and> int (length (entries (booths st))) =
          (if 0 < num_booths p then min (int (length (voters st))) (num_booths p)
           else int (length (voters st))))"

definition on_schedule :: "Precinct \<Rightarrow> generator \<Rightarrow> real \<Rightarrow> real \<Rightarrow> int \<Rightarrow> nat \<Rightarrow> loop_state \<Rightarrow> bool" where
  "on_schedule p gen pst std seed i st =
     (map arrival_time (voters st) =
        takeWhile (\<lambda>t. t \<le> closing_time p) (map (arrival p gen pst std seed) [0..<i])
      \<and> map voting_duration (voters st) =
          map (\<lambda>k. snd (draw p gen pst std seed k)) [0..<length (voters st)]
      \<and> (stopped st \<longleftrightarrow> (\<exists>j<i. arrival p gen pst std seed j > closing_time p))
      \<and> (\<not> stopped st \<longrightarrow> length (voters st) = i
           \<and> cur_time st = (case i of 0 \<Rightarrow> 0 | Suc j \<Rightarrow> arrival p gen pst std seed j)))"

definition no_wait :: "Voter \<Rightarrow> bool" where
  "no_wait v = (start_time v = Some (arrival_time v))"

text \<open>
  The wait of a resolved voter, the arithmetic mean of the waits of a list of voters, and
  the list of voters of trial \<open>i\<close> of the aggregator (every trial returns, see
  \<open>simulate_returns\<close> below).
\<close>

definition wait :: "Voter \<Rightarrow> real" where
  "wait v = the (start_time v) - arrival_time v"

definition mean_wait :: "Voter list \<Rightarrow> real" where
  "mean_wait vs = sum_list (map wait vs) / real (length vs)"

definition trial :: "generator \<Rightarrow> precinct_dict \<Rightarrow> real \<Rightarrow> int \<Rightarrow> nat \<Rightarrow> Voter list" where
  "trial gen d pst initial_seed i =
     (case simulate (Precinct_init d) gen pst (cfg_straight_ticket_duration d)
             (initial_seed + int i) of
        Returns vs \<Rightarrow> vs | Raises e \<Rightarrow> [] | Blocks \<Rightarrow> [])"

text \<open>A small precinct and a generator of fixed gaps, on which the properties are run.\<close>

definition gen0 :: generator where
  "gen0 ar vr pst std seed k = (30, 40 + 10 * of_int seed + 100 * (1 - pst))"

definition p0 :: Precinct where
  "p0 = \<lparr>name = ''p0'', hours_open = 1, max_num_voters = 3, num_booths = 1,
         arrival_rate = 1, voting_duration_rate = 1\<rparr>"

definition d0 :: precinct_dict where
  "d0 = \<lparr>cfg_name = ''p0'', cfg_hours_open = 1, cfg_num_voters = 3, cfg_num_booths = 1,
         cfg_arrival_rate = 1, cfg_voting_duration_rate = 1,
         cfg_straight_ticket_duration = 2\<rparr>"

definition st1 :: loop_state where
  "st1 = \<lparr>cur_time = 30,
          voters = [\<lparr>arrival_time = 30, voting_duration = 40, start_time = Some 30,
                      departure_time = Some 70\<rparr>],
          booths = \<lparr>maxsize = 1, entries = [Some 70]\<rparr>, stopped = False\<rparr>"

definition v1 :: Voter where
  "v1 = \<lparr>arrival_time = 60, voting_duration = 40, start_time = None,
          departure_time = None\<rparr>"

definition pz :: Precinct where
  "pz = \<lparr>name = ''pz'', hours_open = 1, max_num_voters = 3, num_booths = 0,
         arrival_rate = 1, voting_duration_rate = 1\<rparr>"

definition stz :: loop_state where
  "stz = \<lparr>cur_time = 30,
          voters = [\<lparr>arrival_time = 30, voting_duration = 40, start_time = Some 30,
                      departure_time = Some 70\<rparr>],
          booths = \<lparr>maxsize = 0, entries = [Some 70]\<rparr>, stopped = False\<rparr>"

definition p3 :: Precinct where
  "p3 = \<lparr>name = ''p3'', hours_open = 2, max_num_voters = 3, num_booths = 3,
         arrival_rate = 1, voting_duration_rate = 1\<rparr>"

definition dclosed :: precinct_dict where
  "dclosed = \<lparr>cfg_name = ''closed'', cfg_hours_open = 0, cfg_num_voters = 3,
         cfg_num_booths = 1, cfg_arrival_rate = 1, cfg_voting_duration_rate = 1,
         cfg_straight_ticket_duration = 2\<rparr>"

section \<open>Properties\<close>

subsection \<open>The heap\<close>

lemma parent_less: "0 < pos \<Longrightarrow> parent pos < pos"
  by (simp add: parent_def less_Suc_eq_le div_le_dividend flip: Suc_pred')

lemma parent_le: "parent pos \<le> pos"
  by (simp add: parent_def)

lemma less_than_Some [simp]: "less_than (Some x) (Some y) = Some (x < y)"
  by (simp add: less_than_def)

lemma length_fsiftdown [simp]: "length (fsiftdown xs pos) = length xs"
  by (induction xs pos rule: fsiftdown.induct) (subst fsiftdown.simps, simp)

lemma siftdown_floats:
  assumes "pos < length xs"
  shows "siftdown (map Some xs) 0 pos = (Returns (), map Some (fsiftdown xs pos))"
  using assms
proof (induction xs pos rule: fsiftdown.induct)
  case (1 xs pos)
  let ?q = "parent pos"
  have q: "?q < length xs" using "1.prems" parent_le [of pos] by simp
  show ?case
  proof (cases "pos > 0 \<and> xs ! pos < xs ! ?q")
    case True
    then have "?q < pos" using parent_less [of pos] by simp
    with "1.IH" [OF True] q have
      "siftdown (map Some (xs[?q := xs ! pos, pos := xs ! ?q])) 0 ?q =
       (Returns (), map Some (fsiftdown (xs[?q := xs ! pos, pos := xs ! ?q]) ?q))"
      by simp
    with True q "1.prems" show ?thesis
      by (subst siftdown.simps, subst fsiftdown.simps) (simp add: Let_def map_update)
  next
    case False
    with q "1.prems" show ?thesis
      by (subst siftdown.simps, subst fsiftdown.simps) (auto simp: Let_def)
  qed
qed

lemma smaller_child_bound:
  assumes "pos < length xs div 2"
  shows "smaller_child xs pos < length xs" "pos < smaller_child xs pos"
  using assms by (auto simp: smaller_child_def)

lemma siftup_floats:
  assumes "pos < length xs"
  shows "siftup (map Some xs) 0 pos = (Returns (), map Some (fsiftup xs pos))"
  using assms
proof (induction xs pos rule: fsiftup.induct)
  case (1 xs pos)
  let ?c = "smaller_child xs pos"
  show ?case
  proof (cases "pos < length xs div 2")
    case True
    note cb = smaller_child_bound [OF True]
    from "1.IH" [OF True] cb have ih:
      "siftup (map Some (xs[?c := xs ! pos, pos := xs ! ?c])) 0 ?c =
       (Returns (), map Some (fsiftup (xs[?c := xs ! pos, pos := xs ! ?c]) ?c))"
      by simp
    have l: "2 * pos + 1 < length xs" using True by simp
    show ?thesis
    proof (cases "2 * pos + 2 < length xs")
      case True
      with \<open>pos < length xs div 2\<close> l "1.prems" ih show ?thesis
        by (subst siftup.simps, subst fsiftup.simps)
           (auto simp: Let_def map_update smaller_child_def)
    next
      case False
      with \<open>pos < length xs div 2\<close> l "1.prems" ih show ?thesis
        by (subst siftup.simps, subst fsiftup.simps)
           (auto simp: Let_def map_update smaller_child_def)
    qed
  next
    case False
    with "1.prems" show ?thesis
      by (subst siftup.simps, subst fsiftup.simps) (simp add: siftdown_floats)
  qed
qed


lemma swap_nth:
  assumes "a < length xs" "b < length xs"
  shows "xs[a := xs ! b, b := xs ! a] ! i =
           (if i = b then xs ! a else if i = a then xs ! b else xs ! i)"
  using assms by (simp add: nth_list_update)

lemma mset_swap':
  assumes "a < length xs" "b < length xs"
  shows "mset (xs[a := xs ! b, b := xs ! a]) = mset xs"
  using assms by (simp add: mset_swap)

lemma up_step:
  assumes inv: "up_inv xs pos" and pos: "0 < pos" and lt: "xs ! pos < xs ! parent pos"
  shows "up_inv (xs[parent pos := xs ! pos, pos := xs ! parent pos]) (parent pos)"
proof -
  define q where "q = parent pos"
  define ys where "ys = xs[q := xs ! pos, pos := xs ! q]"
  from inv have n: "pos < length xs" by (simp add: up_inv_def)
  have qp: "q < pos" unfolding q_def using pos by (rule parent_less)
  with n have qn: "q < length xs" by simp
  have nth: "ys ! i = (if i = pos then xs ! q else if i = q then xs ! pos else xs ! i)" for i
    unfolding ys_def using qn n by (rule swap_nth)
  have len: "length ys = length xs" by (simp add: ys_def)
  from inv have A: "\<And>i. 0 < i \<Longrightarrow> i < length xs \<Longrightarrow> i \<noteq> pos \<Longrightarrow> xs ! parent i \<le> xs ! i"
    and B: "\<And>c. 0 < c \<Longrightarrow> c < length xs \<Longrightarrow> parent c = pos \<Longrightarrow> xs ! q \<le> xs ! c"
    using pos by (auto simp: up_inv_def q_def)
  from lt have lt': "xs ! pos < xs ! q" by (simp add: q_def)
  have c1: "ys ! parent i \<le> ys ! i" if i: "0 < i" "i < length xs" "i \<noteq> q" for i
  proof -
    have pi: "parent i < i" using i(1) by (rule parent_less)
    consider "i = pos" | "i \<noteq> pos" "parent i = q" | "i \<noteq> pos" "parent i = pos"
      | "i \<noteq> pos" "parent i \<noteq> q" "parent i \<noteq> pos" by blast
    then show ?thesis
    proof cases
      case 1
      then have "parent i = q" by (simp add: q_def)
      with 1 lt' qp show ?thesis by (simp add: nth)
    next
      case 2
      with A [OF i(1,2)] lt' i qp pi show ?thesis by (simp add: nth)
    next
      case 3
      with B [OF i(1,2)] i qp pi show ?thesis by (simp add: nth)
    next
      case 4
      with A [OF i(1,2)] i show ?thesis by (simp add: nth)
    qed
  qed
  have c2: "ys ! parent q \<le> ys ! c"
    if c: "0 < q" "0 < c" "c < length xs" "parent c = q" for c
  proof -
    have pq: "parent q < q" using c(1) by (rule parent_less)
    have g: "xs ! parent q \<le> xs ! q" using A [of q] c(1) qn qp by simp
    have cq: "c \<noteq> q" using parent_less [OF c(2)] c(4) by simp
    show ?thesis
    proof (cases "c = pos")
      case True
      with g pq qp show ?thesis by (simp add: nth)
    next
      case False
      with A [OF c(2,3)] c(4) g pq qp cq show ?thesis by (simp add: nth)
    qed
  qed
  from qn c1 c2 len have "up_inv ys q" by (simp add: up_inv_def)
  then show ?thesis by (simp add: ys_def q_def)
qed

lemma fsiftdown_heap:
  assumes "up_inv xs pos"
  shows "heap_ok (fsiftdown xs pos) \<and> mset (fsiftdown xs pos) = mset xs"
  using assms
proof (induction xs pos rule: fsiftdown.induct)
  case (1 xs pos)
  from "1.prems" have n: "pos < length xs" by (simp add: up_inv_def)
  show ?case
  proof (cases "pos > 0 \<and> xs ! pos < xs ! parent pos")
    case True
    then have qn: "parent pos < length xs" using parent_less [of pos] n by simp
    from True "1.prems" have "up_inv (xs[parent pos := xs ! pos, pos := xs ! parent pos]) (parent pos)"
      by (intro up_step) simp_all
    from "1.IH" [OF True this] mset_swap' [OF qn n] True show ?thesis
      by (subst (1 2) fsiftdown.simps) simp
  next
    case False
    have "heap_ok xs"
      unfolding heap_ok_def
    proof (intro allI impI)
      fix i assume i: "0 < i \<and> i < length xs"
      show "xs ! parent i \<le> xs ! i"
      proof (cases "i = pos")
        case True
        with False i show ?thesis by auto
      next
        case False
        with "1.prems" i show ?thesis by (simp add: up_inv_def)
      qed
    qed
    moreover from False have "fsiftdown xs pos = xs"
      by (subst fsiftdown.simps) auto
    ultimately show ?thesis by simp
  qed
qed


lemma child_cases:
  assumes "0 < i" "parent i = pos"
  shows "i = 2 * pos + 1 \<or> i = 2 * pos + 2"
  using assms unfolding parent_def by (cases i) auto

lemma parent_child [simp]: "parent (2 * pos + 1) = pos" "parent (2 * pos + 2) = pos"
  by (simp_all add: parent_def)

lemma smaller_child_props:
  assumes "pos < length xs div 2"
  shows "smaller_child xs pos < length xs" "pos < smaller_child xs pos"
    "parent (smaller_child xs pos) = pos"
    "\<And>i. 0 < i \<Longrightarrow> i < length xs \<Longrightarrow> parent i = pos \<Longrightarrow> xs ! smaller_child xs pos \<le> xs ! i"
proof -
  show "smaller_child xs pos < length xs" "pos < smaller_child xs pos"
    using assms by (auto simp: smaller_child_def)
  show "parent (smaller_child xs pos) = pos"
    by (simp add: smaller_child_def parent_def)
  fix i assume i: "0 < i" "i < length xs" "parent i = pos"
  from child_cases [OF i(1,3)] i(2) show "xs ! smaller_child xs pos \<le> xs ! i"
    by (auto simp: smaller_child_def)
qed

lemma down_step:
  assumes inv: "down_inv xs pos" and pos: "pos < length xs div 2"
  shows "down_inv (xs[smaller_child xs pos := xs ! pos, pos := xs ! smaller_child xs pos])
           (smaller_child xs pos)"
proof -
  define c where "c = smaller_child xs pos"
  define ys where "ys = xs[c := xs ! pos, pos := xs ! c]"
  note sc = smaller_child_props [OF pos, folded c_def]
  from inv have n: "pos < length xs" by (simp add: down_inv_def)
  have nth: "ys ! i = (if i = pos then xs ! c else if i = c then xs ! pos else xs ! i)" for i
    unfolding ys_def using sc(1) n by (rule swap_nth)
  have len: "length ys = length xs" by (simp add: ys_def)
  from inv have A: "\<And>i. 0 < i \<Longrightarrow> i < length xs \<Longrightarrow> i \<noteq> pos \<Longrightarrow> parent i \<noteq> pos
      \<Longrightarrow> xs ! parent i \<le> xs ! i"
    and B: "\<And>d. 0 < pos \<Longrightarrow> 0 < d \<Longrightarrow> d < length xs \<Longrightarrow> parent d = pos
      \<Longrightarrow> xs ! parent pos \<le> xs ! d"
    by (auto simp: down_inv_def)
  have c0: "0 < c" using sc(2) by simp
  have c1: "ys ! parent i \<le> ys ! i"
    if i: "0 < i" "i < length xs" "i \<noteq> c" "parent i \<noteq> c" for i
  proof -
    have pi: "parent i < i" using i(1) by (rule parent_less)
    consider "i = pos" | "i \<noteq> pos" "parent i = pos" | "i \<noteq> pos" "parent i \<noteq> pos" by blast
    then show ?thesis
    proof cases
      case 1
      with i(1) have "0 < pos" by simp
      from B [OF this c0 sc(1) sc(3)] 1 pi sc(2) show ?thesis by (simp add: nth)
    next
      case 2
      with sc(4) [OF i(1,2)] i show ?thesis by (simp add: nth)
    next
      case 3
      with A [OF i(1,2)] i show ?thesis by (simp add: nth)
    qed
  qed
  have c2: "ys ! parent c \<le> ys ! d"
    if d: "0 < d" "d < length xs" "parent d = c" for d
  proof -
    have "c < d" using parent_less [OF d(1)] d(3) by simp
    with sc(2) have "d \<noteq> pos" "d \<noteq> c" by simp_all
    moreover from sc(2) d(3) have "parent d \<noteq> pos" by simp
    ultimately show ?thesis
      using A [OF d(1,2)] d(3) sc(3) by (simp add: nth)
  qed
  from sc(1) c1 c2 len have "down_inv ys c" by (simp add: down_inv_def)
  then show ?thesis by (simp add: ys_def c_def)
qed

lemma down_inv_leaf:
  assumes inv: "down_inv xs pos" and leaf: "\<not> pos < length xs div 2"
  shows "up_inv xs pos"
proof -
  have "False" if i: "0 < i" "i < length xs" "parent i = pos" for i
    using child_cases [OF i(1,3)] i(2) leaf by auto
  with inv show ?thesis
    unfolding up_inv_def down_inv_def by blast
qed

lemma fsiftup_heap:
  assumes "down_inv xs pos"
  shows "heap_ok (fsiftup xs pos) \<and> mset (fsiftup xs pos) = mset xs"
  using assms
proof (induction xs pos rule: fsiftup.induct)
  case (1 xs pos)
  from "1.prems" have n: "pos < length xs" by (simp add: down_inv_def)
  show ?case
  proof (cases "pos < length xs div 2")
    case True
    note sc = smaller_child_props [OF True]
    from "1.prems" True
    have "down_inv (xs[smaller_child xs pos := xs ! pos, pos := xs ! smaller_child xs pos])
            (smaller_child xs pos)"
      by (rule down_step)
    from "1.IH" [OF True this] mset_swap' [OF sc(1) n] True show ?thesis
      by (subst (1 2) fsiftup.simps) simp
  next
    case False
    with "1.prems" have "up_inv xs pos" by (rule down_inv_leaf)
    then have "heap_ok (fsiftdown xs pos) \<and> mset (fsiftdown xs pos) = mset xs"
      by (rule fsiftdown_heap)
    moreover from False have "fsiftup xs pos = fsiftdown xs pos"
      by (subst fsiftup.simps) simp
    ultimately show ?thesis by simp
  qed
qed

lemma heap_root_least:
  assumes "heap_ok xs" "i < length xs"
  shows "xs ! 0 \<le> xs ! i"
  using assms(2)
proof (induction i rule: less_induct)
  case (less i)
  show ?case
  proof (cases "i = 0")
    case True
    then show ?thesis by simp
  next
    case False
    then have p: "parent i < i" by (simp add: parent_less)
    with less.prems have "xs ! 0 \<le> xs ! parent i" by (intro less.IH) simp_all
    moreover from assms(1) False less.prems have "xs ! parent i \<le> xs ! i"
      by (simp add: heap_ok_def)
    ultimately show ?thesis by simp
  qed
qed

lemma heap_root_Min:
  assumes "heap_ok xs" "xs \<noteq> []"
  shows "xs ! 0 = Min (set xs)"
proof (rule sym, rule Min_eqI)
  show "finite (set xs)" by simp
  show "xs ! 0 \<in> set xs" using assms(2) by simp
  fix y assume "y \<in> set xs"
  then obtain i where "i < length xs" "y = xs ! i" by (auto simp: in_set_conv_nth)
  with heap_root_least [OF assms(1)] show "xs ! 0 \<le> y" by simp
qed


lemma butlast_empty_iff: "butlast xs = [] \<longleftrightarrow> length xs \<le> 1"
  by (cases xs) (auto split: if_splits)

lemma length_fsiftup [simp]: "length (fsiftup xs pos) = length xs"
proof (induction xs pos rule: fsiftup.induct)
  case (1 xs pos)
  then show ?case by (subst fsiftup.simps) simp
qed

lemma mset_fsiftdown:
  assumes "pos < length xs"
  shows "mset (fsiftdown xs pos) = mset xs"
  using assms
proof (induction xs pos rule: fsiftdown.induct)
  case (1 xs pos)
  show ?case
  proof (cases "pos > 0 \<and> xs ! pos < xs ! parent pos")
    case True
    then have qn: "parent pos < length xs" using parent_less [of pos] "1.prems" by simp
    with "1.IH" [OF True] mset_swap' [OF qn "1.prems"] True show ?thesis
      by (subst fsiftdown.simps) simp
  next
    case False
    then show ?thesis by (subst fsiftdown.simps) auto
  qed
qed

lemma mset_fsiftup:
  assumes "pos < length xs"
  shows "mset (fsiftup xs pos) = mset xs"
  using assms
proof (induction xs pos rule: fsiftup.induct)
  case (1 xs pos)
  show ?case
  proof (cases "pos < length xs div 2")
    case True
    note sc = smaller_child_props [OF True]
    with "1.IH" [OF True] mset_swap' [OF sc(1) "1.prems"] True show ?thesis
      by (subst fsiftup.simps) simp
  next
    case False
    with "1.prems" show ?thesis by (subst fsiftup.simps) (simp add: mset_fsiftdown)
  qed
qed

lemma heappush_floats:
  "heappush (Some d) (map Some xs) = (Returns (), map Some (fheappush d xs))"
proof -
  have "siftdown (map Some (xs @ [d])) 0 (length xs) =
      (Returns (), map Some (fsiftdown (xs @ [d]) (length xs)))"
    by (rule siftdown_floats) simp
  then show ?thesis by (simp add: heappush_def fheappush_def)
qed

lemma mset_fheappush: "mset (fheappush d xs) = add_mset d (mset xs)"
  by (simp add: fheappush_def mset_fsiftdown)

lemma heap_fheappush:
  assumes "heap_ok xs"
  shows "heap_ok (fheappush d xs)"
proof -
  have "up_inv (xs @ [d]) (length xs)"
    unfolding up_inv_def
  proof (intro conjI allI impI)
    show "length xs < length (xs @ [d])" by simp
  next
    fix i assume i: "0 < i \<and> i < length (xs @ [d]) \<and> i \<noteq> length xs"
    then have "i < length xs" by simp
    moreover with parent_le [of i] have "parent i < length xs" by simp
    ultimately show "(xs @ [d]) ! parent i \<le> (xs @ [d]) ! i"
      using assms i by (simp add: nth_append heap_ok_def)
  next
    fix c assume c: "0 < length xs \<and> 0 < c \<and> c < length (xs @ [d]) \<and> parent c = length xs"
    then have "c = 2 * length xs + 1 \<or> c = 2 * length xs + 2" by (intro child_cases) simp_all
    with c show "(xs @ [d]) ! parent (length xs) \<le> (xs @ [d]) ! c" by auto
  qed
  from fsiftdown_heap [OF this] show ?thesis by (simp add: fheappush_def)
qed

lemma heappop_floats:
  assumes "xs \<noteq> []"
  shows "heappop (map Some xs) = (Returns (Some (xs ! 0)), map Some (fheappop xs))"
proof (cases "butlast xs = []")
  case True
  with assms obtain x where "xs = [x]" by (cases xs) (auto split: if_splits)
  then show ?thesis by (simp add: heappop_def fheappop_def)
next
  case False
  let ?ys = "(butlast xs)[0 := last xs]"
  from False have l2: "Suc 0 < length xs" by (simp add: butlast_empty_iff)
  then have l0: "0 < length (butlast xs)" and l1: "0 < length xs - Suc 0" by simp_all
  have "siftup (map Some ?ys) 0 0 = (Returns (), map Some (fsiftup ?ys 0))"
    using l0 by (intro siftup_floats) simp
  moreover have "(butlast (map Some xs))[0 := last (map Some xs)] = map Some ?ys"
    using assms by (simp add: map_butlast last_map map_update)
  moreover have "butlast (map Some xs) ! 0 = Some (xs ! 0)"
    using l1 assms by (simp add: map_butlast nth_butlast)
  moreover have "butlast (map Some xs) \<noteq> []" "map Some xs \<noteq> []"
    using l2 assms by (simp_all add: butlast_empty_iff)
  ultimately show ?thesis
    using False by (simp add: heappop_def fheappop_def Let_def)
qed

lemma mset_fheappop:
  assumes "xs \<noteq> []"
  shows "mset (fheappop xs) = mset xs - {#xs ! 0#}"
proof (cases "butlast xs = []")
  case True
  with assms obtain x where "xs = [x]" by (cases xs) (auto split: if_splits)
  then show ?thesis by (simp add: fheappop_def)
next
  case False
  let ?ys = "(butlast xs)[0 := last xs]"
  from assms obtain x rest where xs: "xs = x # rest" by (cases xs) auto
  with False have rest: "rest \<noteq> []" by auto
  then have "rest = butlast rest @ [last rest]" by simp
  then have "mset rest = add_mset (last rest) (mset (butlast rest))"
    by (metis mset.simps(2) mset_append add_mset_add_single union_mset_add_mset_right
        add.right_neutral mset_zero_iff_right)
  then have "mset ?ys = mset xs - {#xs ! 0#}" using rest by (simp add: xs)
  moreover from False have "mset (fsiftup ?ys 0) = mset ?ys"
    by (intro mset_fsiftup) (simp add: butlast_empty_iff)
  ultimately show ?thesis using False by (simp add: fheappop_def)
qed

lemma heap_fheappop:
  assumes "heap_ok xs"
  shows "heap_ok (fheappop xs)"
proof (cases "butlast xs = []")
  case True
  then show ?thesis by (simp add: fheappop_def heap_ok_def)
next
  case False
  let ?ys = "(butlast xs)[0 := last xs]"
  from False have l0: "0 < length (butlast xs)" by (simp add: butlast_empty_iff)
  have "down_inv ?ys 0"
    unfolding down_inv_def
  proof (intro conjI allI impI)
    show "0 < length ?ys" using l0 by simp
  next
    fix i assume i: "0 < i \<and> i < length ?ys \<and> i \<noteq> 0 \<and> parent i \<noteq> 0"
    then have il: "i < length xs - 1" by simp
    with parent_le [of i] have "parent i < length xs - 1" by simp
    with il i assms show "?ys ! parent i \<le> ?ys ! i"
      by (simp add: nth_butlast heap_ok_def)
  next
    fix c assume "0 < (0::nat) \<and> 0 < c \<and> c < length ?ys \<and> parent c = 0"
    then show "?ys ! parent 0 \<le> ?ys ! c" by simp
  qed
  from fsiftup_heap [OF this] False show ?thesis by (simp add: fheappop_def)
qed

subsection \<open>The booths\<close>

lemma obind_simps [simp]:
  "obind (Returns x) f = f x" "obind (Raises e) f = Raises e" "obind Blocks f = Blocks"
  by (simp_all add: obind_def)

lemma wait_not_full_exit:
  assumes "wait_not_full b = Some b'"
  shows "\<not> maxsize b \<le> int (length (entries b)) \<and> b' = b"
  by (rule wait_not_full.raw_induct [OF _ assms]) (auto split: if_splits)

lemma wait_not_full_never:
  assumes "maxsize b \<le> int (length (entries b))"
  shows "wait_not_full b = None"
  using assms wait_not_full_exit [of b] by (cases "wait_not_full b") auto

lemma wait_not_full_passes:
  assumes "\<not> maxsize b \<le> int (length (entries b))"
  shows "wait_not_full b = Some b"
  using assms by (subst wait_not_full.simps) simp

lemma wait_not_empty_exit:
  assumes "wait_not_empty b = Some b'"
  shows "entries b \<noteq> [] \<and> b' = b"
  by (rule wait_not_empty.raw_induct [OF _ assms]) (auto split: if_splits)

lemma wait_not_empty_never:
  assumes "entries b = []"
  shows "wait_not_empty b = None"
  using assms wait_not_empty_exit [of b] by (cases "wait_not_empty b") auto

lemma wait_not_empty_passes:
  assumes "entries b \<noteq> []"
  shows "wait_not_empty b = Some b"
  using assms by (subst wait_not_empty.simps) simp

lemma enter_eval:
  "enter v b =
     (if full b then (Blocks, b)
      else case heappush (departure_time v) (entries b) of
             (r, heap) \<Rightarrow> (r, b\<lparr>entries := heap\<rparr>))"
proof (cases "full b")
  case True
  then show ?thesis
    by (simp add: enter_def queue_put_def full_def wait_not_full_never)
next
  case False
  show ?thesis
  proof (cases "0 < maxsize b")
    case True
    with False have "\<not> maxsize b \<le> int (length (entries b))" by (simp add: full_def)
    with False True show ?thesis
      by (simp add: enter_def queue_put_def wait_not_full_passes)
  next
    case False
    then show ?thesis by (simp add: enter_def queue_put_def full_def)
  qed
qed

lemma depart_eval:
  "depart b =
     (if entries b = [] then (Blocks, b)
      else case heappop (entries b) of (r, heap) \<Rightarrow> (r, b\<lparr>entries := heap\<rparr>))"
  by (simp add: depart_def queue_get_def wait_not_empty_never wait_not_empty_passes)

lemma entries_floats:
  assumes "None \<notin> set (entries b)"
  shows "entries b = map Some (departures b)"
proof -
  have "heap = map Some (map the heap)" if "None \<notin> set heap" for heap :: "real option list"
    using that
  proof (induction heap)
    case Nil
    show ?case by simp
  next
    case (Cons x heap)
    then obtain d where "x = Some d" by (cases x) auto
    with Cons show ?case by simp
  qed
  with assms show ?thesis by (simp only: departures_def)
qed

lemma departures_floats [simp]: "departures (b\<lparr>entries := map Some xs\<rparr>) = xs"
  by (simp add: departures_def comp_def)

lemma full_nonempty: "full b \<Longrightarrow> entries b \<noteq> []"
  by (auto simp: full_def)

lemma departures_nonempty: "entries b \<noteq> [] \<Longrightarrow> departures b \<noteq> []"
  by (simp add: departures_def)

lemma length_departures [simp]: "length (departures b) = length (entries b)"
  by (simp add: departures_def)

lemma length_fheappush [simp]: "length (fheappush d xs) = Suc (length xs)"
  by (simp add: fheappush_def)

lemma length_fheappop:
  assumes "xs \<noteq> []"
  shows "Suc (length (fheappop xs)) = length xs"
proof (cases "butlast xs = []")
  case True
  with assms obtain x where "xs = [x]" by (cases xs) (auto split: if_splits)
  then show ?thesis by (simp add: fheappop_def)
next
  case False
  then have "Suc 0 < length xs" by (simp add: butlast_empty_iff)
  with False show ?thesis by (simp add: fheappop_def)
qed

lemma enter_floats:
  assumes "\<not> full b" "None \<notin> set (entries b)" "departure_time v = Some d"
  shows "enter v b = (Returns (), b\<lparr>entries := map Some (fheappush d (departures b))\<rparr>)"
proof -
  from assms(2) have "entries b = map Some (departures b)" by (rule entries_floats)
  with heappush_floats [of d "departures b"]
  have "heappush (Some d) (entries b) = (Returns (), map Some (fheappush d (departures b)))"
    by simp
  with assms(1,3) show ?thesis by (simp add: enter_eval)
qed

lemma depart_floats:
  assumes "entries b \<noteq> []" "None \<notin> set (entries b)"
  shows "depart b = (Returns (Some (departures b ! 0)),
                     b\<lparr>entries := map Some (fheappop (departures b))\<rparr>)"
proof -
  from assms(2) have e: "entries b = map Some (departures b)" by (rule entries_floats)
  from assms(1) have "departures b \<noteq> []" by (rule departures_nonempty)
  from heappop_floats [OF this] e
  have "heappop (entries b) =
      (Returns (Some (departures b ! 0)), map Some (fheappop (departures b)))"
    by simp
  with assms(1) show ?thesis by (simp add: depart_eval)
qed

lemma earliest_first:
  assumes "entries b \<noteq> []" "heap_ok (departures b)"
  shows "departures b ! 0 = Min (set (departures b))"
  using assms by (intro heap_root_Min departures_nonempty)

lemma single_vote_free:
  assumes "\<not> full b" "None \<notin> set (entries b)"
  shows "simulate_single_vote v b =
    Returns (v\<lparr>start_time := Some (arrival_time v),
               departure_time := Some (arrival_time v + voting_duration v)\<rparr>,
             b\<lparr>entries := map Some (fheappush (arrival_time v + voting_duration v)
                                       (departures b))\<rparr>)"
  using assms by (simp add: simulate_single_vote_def Let_def enter_floats)

lemma single_vote_full:
  fixes v :: Voter
  assumes "full b" "within_capacity b" "None \<notin> set (entries b)"
  defines "s \<equiv> (if departures b ! 0 < arrival_time v then arrival_time v
                 else departures b ! 0)"
  shows "simulate_single_vote v b =
    Returns (v\<lparr>start_time := Some s, departure_time := Some (s + voting_duration v)\<rparr>,
             b\<lparr>entries := map Some (fheappush (s + voting_duration v)
                                       (fheappop (departures b)))\<rparr>)"
proof -
  let ?b1 = "b\<lparr>entries := map Some (fheappop (departures b))\<rparr>"
  have ne: "entries b \<noteq> []" using assms(1) by (rule full_nonempty)
  have len: "Suc (length (fheappop (departures b))) = length (entries b)"
    using length_fheappop [OF departures_nonempty [OF ne]] by simp
  have "int (length (entries b)) = maxsize b" "0 < maxsize b"
    using assms(1,2) by (auto simp: full_def within_capacity_def)
  with len have nf: "\<not> full ?b1" by (simp add: full_def)
  have nn: "None \<notin> set (entries ?b1)" by auto
  have dep: "depart b = (Returns (Some (departures b ! 0)), ?b1)"
    using ne assms(3) by (rule depart_floats)
  have ent: "enter (v\<lparr>start_time := Some x, departure_time := Some y\<rparr>) ?b1 =
      (Returns (), ?b1\<lparr>entries := map Some (fheappush y (fheappop (departures b)))\<rparr>)" for x y
    using enter_floats [OF nf nn, of "v\<lparr>start_time := Some x, departure_time := Some y\<rparr>" y]
    by simp
  show ?thesis
    by (simp add: simulate_single_vote_def assms(1) dep ent Let_def s_def)
qed

subsection \<open>One admission\<close>

lemma next_voter_eq:
  "next_voter p gen seed k t pst std =
     Voter_init (t + fst (draw p gen pst std seed k)) (snd (draw p gen pst std seed k))"
  by (simp add: next_voter_def draw_def split_beta)

lemma mset_entries:
  assumes "None \<notin> set (entries b)"
  shows "mset (entries b) = image_mset Some (mset (departures b))"
  using entries_floats [OF assms] by (metis mset_map)

lemma single_vote_step:
  assumes "within_capacity b" "None \<notin> set (entries b)"
  shows "\<exists>s b'. simulate_single_vote v b =
           Returns (v\<lparr>start_time := Some s, departure_time := Some (s + voting_duration v)\<rparr>, b')
         \<and> arrival_time v \<le> s \<and> (\<not> full b \<longrightarrow> s = arrival_time v)
         \<and> maxsize b' = maxsize b \<and> within_capacity b' \<and> None \<notin> set (entries b')
         \<and> (heap_ok (departures b) \<longrightarrow> heap_ok (departures b'))
         \<and> length (entries b') =
              (if full b then length (entries b) else Suc (length (entries b)))
         \<and> mset (entries b') \<subseteq># add_mset (Some (s + voting_duration v)) (mset (entries b))"
proof (cases "full b")
  case False
  let ?d = "arrival_time v + voting_duration v"
  let ?b = "b\<lparr>entries := map Some (fheappush ?d (departures b))\<rparr>"
  from False assms(1) have "within_capacity ?b"
    by (auto simp: within_capacity_def full_def)
  moreover have "None \<notin> set (entries ?b)" by auto
  moreover have "heap_ok (departures b) \<longrightarrow> heap_ok (departures ?b)"
    by (simp add: heap_fheappush)
  moreover have "mset (entries ?b) \<subseteq># add_mset (Some ?d) (mset (entries b))"
    by (simp add: mset_fheappush mset_entries [OF assms(2)])
  ultimately show ?thesis
    using False single_vote_free [OF False assms(2), of v]
    by (intro exI [of _ "arrival_time v"] exI [of _ ?b]) simp
next
  case True
  let ?E = "departures b ! 0"
  let ?s = "if ?E < arrival_time v then arrival_time v else ?E"
  let ?b = "b\<lparr>entries := map Some (fheappush (?s + voting_duration v)
                                    (fheappop (departures b)))\<rparr>"
  have ne: "entries b \<noteq> []" using True by (rule full_nonempty)
  have len: "Suc (length (fheappop (departures b))) = length (entries b)"
    using length_fheappop [OF departures_nonempty [OF ne]] by simp
  then have wc: "within_capacity ?b"
    using assms(1) by (auto simp: within_capacity_def)
  have nn: "None \<notin> set (entries ?b)" by auto
  have hp: "heap_ok (departures b) \<longrightarrow> heap_ok (departures ?b)"
    by (simp add: heap_fheappush heap_fheappop)
  have "mset (fheappop (departures b)) \<subseteq># mset (departures b)"
    using mset_fheappop [OF departures_nonempty [OF ne]] by simp
  then have "image_mset Some (mset (fheappop (departures b)))
      \<subseteq># image_mset Some (mset (departures b))"
    by (rule image_mset_subseteq_mono)
  then have sub: "mset (entries ?b) \<subseteq># add_mset (Some (?s + voting_duration v)) (mset (entries b))"
    by (simp add: mset_fheappush mset_entries [OF assms(2)])
  have le: "arrival_time v \<le> ?s" by simp
  have sv: "simulate_single_vote v b =
    Returns (v\<lparr>start_time := Some ?s, departure_time := Some (?s + voting_duration v)\<rparr>, ?b)"
    using True assms by (rule single_vote_full)
  have l2: "length (entries ?b) = length (entries b)" using len by simp
  have m: "maxsize ?b = maxsize b" by simp
  from sv le m wc nn hp l2 sub True show ?thesis
    by (intro exI [of _ ?s] exI [of _ ?b]) (simp only: simp_thms if_True)
qed

subsection \<open>The loop of a trial\<close>

lemma loop_body_ok:
  assumes "state_ok p i st"
  shows "\<exists>st'. loop_body p gen pst std seed i st = Returns st' \<and> state_ok p (Suc i) st'"
proof -
  let ?v = "next_voter p gen seed i (cur_time st) pst std"
  show ?thesis
  proof (cases "arrival_time ?v > closing_time p")
    case True
    with assms show ?thesis
      by (simp add: loop_body_def Let_def state_ok_def)
  next
    case False
    let ?b = "booths st"
    from assms have wc: "within_capacity ?b" and nn: "None \<notin> set (entries ?b)"
      and hp: "heap_ok (departures ?b)"
      and mx: "maxsize ?b = num_booths p"
      and sub: "mset (entries ?b) \<subseteq># mset (map departure_time (voters st))"
      and size: "int (length (entries ?b)) =
          (if 0 < num_booths p then min (int (length (voters st))) (num_booths p)
           else int (length (voters st)))"
      and len: "length (voters st) \<le> i" and res: "list_all resolved (voters st)"
      by (simp_all add: state_ok_def)
    from single_vote_step [OF wc nn, of ?v] obtain s b' where
      sv: "simulate_single_vote ?v ?b =
             Returns (?v\<lparr>start_time := Some s, departure_time := Some (s + voting_duration ?v)\<rparr>, b')"
      and le: "arrival_time ?v \<le> s" and mx': "maxsize b' = maxsize ?b"
      and wc': "within_capacity b'" and nn': "None \<notin> set (entries b')"
      and hp': "heap_ok (departures ?b) \<longrightarrow> heap_ok (departures b')"
      and len': "length (entries b') =
              (if full ?b then length (entries ?b) else Suc (length (entries ?b)))"
      and sub': "mset (entries b') \<subseteq># add_mset (Some (s + voting_duration ?v)) (mset (entries ?b))"
      by blast
    let ?v' = "?v\<lparr>start_time := Some s, departure_time := Some (s + voting_duration ?v)\<rparr>"
    let ?st' = "st\<lparr>cur_time := arrival_time ?v, voters := voters st @ [?v'], booths := b'\<rparr>"
    have body: "loop_body p gen pst std seed i st = Returns ?st'"
      using False sv by (simp add: loop_body_def Let_def)
    have r: "list_all resolved (voters ?st')"
      using res le by (simp add: resolved_def)
    have "add_mset (Some (s + voting_duration ?v)) (mset (entries ?b)) \<subseteq>#
        add_mset (Some (s + voting_duration ?v)) (mset (map departure_time (voters st)))"
      using sub by simp
    with sub' have m: "mset (entries (booths ?st')) \<subseteq># mset (map departure_time (voters ?st'))"
      by (simp add: subset_mset.order_trans)
    have z: "int (length (entries (booths ?st'))) =
          (if 0 < num_booths p then min (int (length (voters ?st'))) (num_booths p)
           else int (length (voters ?st')))"
      using size len' mx by (auto simp: full_def min_def split: if_splits)
    have "state_ok p (Suc i) ?st'"
      unfolding state_ok_def using mx mx' wc' nn' hp hp' len r m z by simp
    with body show ?thesis by blast
  qed
qed

lemma loop_after_ok:
  "\<exists>st. loop_after p gen pst std seed i = Returns st \<and> state_ok p i st"
proof (induction i)
  case 0
  show ?case
    by (auto simp: loop_init_def state_ok_def VotingBooths_init_def within_capacity_def
        departures_def heap_ok_def)
next
  case (Suc i)
  then obtain st where st: "loop_after p gen pst std seed i = Returns st" "state_ok p i st"
    by blast
  show ?case
  proof (cases "stopped st")
    case True
    with st show ?thesis by (simp add: state_ok_def)
  next
    case False
    with st loop_body_ok [OF st(2), of gen pst std seed] show ?thesis by simp
  qed
qed

lemma next_arrival:
  assumes "cur_time st = (case i of 0 \<Rightarrow> 0 | Suc j \<Rightarrow> arrival p gen pst std seed j)"
  shows "arrival_time (next_voter p gen seed i (cur_time st) pst std) = arrival p gen pst std seed i"
  using assms by (cases i) (simp_all add: next_voter_eq Voter_init_def)

lemma takeWhile_snoc_all:
  assumes "\<forall>x\<in>set xs. P x"
  shows "takeWhile P (xs @ [y]) = (if P y then xs @ [y] else xs)"
  using assms by (simp add: takeWhile_append2)

lemma takeWhile_snoc_stop:
  assumes "x \<in> set xs" "\<not> P x"
  shows "takeWhile P (xs @ [y]) = takeWhile P xs"
  using assms by (rule takeWhile_append1)

lemma loop_body_schedule:
  assumes ok: "state_ok p i st" and sch: "on_schedule p gen pst std seed i st"
    and ns: "\<not> stopped st" and body: "loop_body p gen pst std seed i st = Returns st'"
  shows "on_schedule p gen pst std seed (Suc i) st'"
proof -
  let ?v = "next_voter p gen seed i (cur_time st) pst std"
  let ?A = "arrival p gen pst std seed"
  let ?c = "closing_time p"
  from sch ns have len: "length (voters st) = i"
    and ct: "cur_time st = (case i of 0 \<Rightarrow> 0 | Suc j \<Rightarrow> ?A j)"
    and early: "\<forall>j<i. \<not> ?A j > ?c"
    and arr: "map arrival_time (voters st) = takeWhile (\<lambda>t. t \<le> ?c) (map ?A [0..<i])"
    and dur: "map voting_duration (voters st) =
          map (\<lambda>k. snd (draw p gen pst std seed k)) [0..<length (voters st)]"
    by (auto simp: on_schedule_def)
  have av: "arrival_time ?v = ?A i" using ct by (rule next_arrival)
  have dv: "voting_duration ?v = snd (draw p gen pst std seed i)"
    by (simp add: next_voter_eq Voter_init_def)
  from early have all: "\<forall>t\<in>set (map ?A [0..<i]). t \<le> ?c" by auto
  have tw: "takeWhile (\<lambda>t. t \<le> ?c) (map ?A [0..<Suc i]) =
        (if ?A i \<le> ?c then map ?A [0..<i] @ [?A i] else map ?A [0..<i])"
    using takeWhile_snoc_all [OF all, of "?A i"] by simp
  have tw0: "takeWhile (\<lambda>t. t \<le> ?c) (map ?A [0..<i]) = map ?A [0..<i]"
    using all by (simp add: takeWhile_eq_all_conv)
  have ex: "(\<exists>j<Suc i. ?A j > ?c) \<longleftrightarrow> ?A i > ?c"
    using early by (auto simp: less_Suc_eq)
  show ?thesis
  proof (cases "?A i > ?c")
    case True
    with body av have "st' = st\<lparr>cur_time := ?A i, stopped := True\<rparr>"
      by (simp add: loop_body_def Let_def)
    with True arr dur tw tw0 ex show ?thesis
      by (simp add: on_schedule_def)
  next
    case False
    from ok have wc: "within_capacity (booths st)" and nn: "None \<notin> set (entries (booths st))"
      by (simp_all add: state_ok_def)
    from single_vote_step [OF wc nn, of ?v] obtain s b' where
      sv: "simulate_single_vote ?v (booths st) =
             Returns (?v\<lparr>start_time := Some s, departure_time := Some (s + voting_duration ?v)\<rparr>, b')"
      by blast
    with body False av have st': "st' = st\<lparr>cur_time := ?A i,
        voters := voters st @ [?v\<lparr>start_time := Some s, departure_time := Some (s + voting_duration ?v)\<rparr>],
        booths := b'\<rparr>"
      by (simp add: loop_body_def Let_def)
    from False have le: "?A i \<le> ?c" by simp
    from tw le have twS: "takeWhile (\<lambda>t. t \<le> ?c) (map ?A [0..<Suc i]) = map ?A [0..<i] @ [?A i]"
      by (simp only: if_True)
    have c1: "map arrival_time (voters st') = takeWhile (\<lambda>t. t \<le> ?c) (map ?A [0..<Suc i])"
      unfolding twS using arr tw0 av by (simp add: st')
    have c2: "map voting_duration (voters st') =
          map (\<lambda>k. snd (draw p gen pst std seed k)) [0..<length (voters st')]"
      using dur dv len by (simp add: st')
    have c3: "stopped st' \<longleftrightarrow> (\<exists>j<Suc i. ?A j > ?c)"
      unfolding ex using ns False by (simp add: st')
    have c4: "\<not> stopped st' \<longrightarrow> length (voters st') = Suc i
           \<and> cur_time st' = (case Suc i of 0 \<Rightarrow> 0 | Suc j \<Rightarrow> ?A j)"
      using len by (simp add: st')
    show ?thesis
      unfolding on_schedule_def using c1 c2 c3 c4 by blast
  qed
qed

lemma loop_after_schedule:
  assumes "loop_after p gen pst std seed i = Returns st"
  shows "on_schedule p gen pst std seed i st"
  using assms
proof (induction i arbitrary: st)
  case 0
  then show ?case by (auto simp: on_schedule_def loop_init_def)
next
  case (Suc i)
  from loop_after_ok [of p gen pst std seed i] obtain st0 where
    st0: "loop_after p gen pst std seed i = Returns st0" "state_ok p i st0" by blast
  have sch0: "on_schedule p gen pst std seed i st0" using st0(1) by (rule Suc.IH)
  show ?case
  proof (cases "stopped st0")
    case True
    with Suc.prems st0 have eq: "st = st0" by simp
    from True sch0 obtain j where j: "j < i" "arrival p gen pst std seed j > closing_time p"
      by (auto simp: on_schedule_def)
    then have "arrival p gen pst std seed j \<in> set (map (arrival p gen pst std seed) [0..<i])"
      by simp
    from takeWhile_snoc_stop [OF this, of "\<lambda>t. t \<le> closing_time p" "arrival p gen pst std seed i"] j
    have "takeWhile (\<lambda>t. t \<le> closing_time p) (map (arrival p gen pst std seed) [0..<Suc i]) =
          takeWhile (\<lambda>t. t \<le> closing_time p) (map (arrival p gen pst std seed) [0..<i])"
      by simp
    with True sch0 j show ?thesis
      unfolding eq on_schedule_def by (auto simp: less_Suc_eq)
  next
    case False
    with Suc.prems st0 have "loop_body p gen pst std seed i st0 = Returns st" by simp
    with st0(2) sch0 False show ?thesis by (rule loop_body_schedule)
  qed
qed

subsection \<open>The admission rule\<close>

lemma loop_body_admits:
  assumes "v = next_voter p gen seed i (cur_time st) pst std"
    and "\<not> arrival_time v > closing_time p"
    and "simulate_single_vote v (booths st) = Returns (v', b')"
  shows "loop_body p gen pst std seed i st =
           Returns (st\<lparr>cur_time := arrival_time v, voters := voters st @ [v'], booths := b'\<rparr>)"
  using assms by (simp add: loop_body_def Let_def)

text \<open>
  C1. In every round of a trial that admits a voter: when the pool is not full the voter
  starts at the arrival time; otherwise the earliest departure time \<open>E\<close> leaves the
  pool and the voter starts at the arrival time when \<open>E\<close> is before it, else at \<open>E\<close>.
  In both cases the departure time is the start plus the voting duration and enters the
  pool.
\<close>

theorem admission_rule:
  assumes run: "loop_after p gen pst std seed i = Returns st" and ns: "\<not> stopped st"
    and v: "v = next_voter p gen seed i (cur_time st) pst std"
    and open': "\<not> arrival_time v > closing_time p"
  shows "\<exists>s b'. loop_after p gen pst std seed (Suc i) =
            Returns (st\<lparr>cur_time := arrival_time v,
                        voters := voters st @ [v\<lparr>start_time := Some s,
                                   departure_time := Some (s + voting_duration v)\<rparr>],
                        booths := b'\<rparr>)
          \<and> entries (booths st) = map Some (departures (booths st))
          \<and> entries b' = map Some (departures b')
          \<and> (if \<not> full (booths st)
              then s = arrival_time v
                \<and> mset (departures b') =
                    add_mset (s + voting_duration v) (mset (departures (booths st)))
              else s = (if Min (set (departures (booths st))) < arrival_time v
                        then arrival_time v else Min (set (departures (booths st))))
                \<and> mset (departures b') =
                    add_mset (s + voting_duration v)
                      (mset (departures (booths st)) - {#Min (set (departures (booths st)))#}))"
proof -
  from loop_after_ok [of p gen pst std seed i] run have "state_ok p i st" by simp
  then have wc: "within_capacity (booths st)" and nn: "None \<notin> set (entries (booths st))"
    and hp: "heap_ok (departures (booths st))"
    by (simp_all add: state_ok_def)
  have next': "loop_after p gen pst std seed (Suc i) = loop_body p gen pst std seed i st"
    using run ns by simp
  have fl: "entries (booths st) = map Some (departures (booths st))"
    using nn by (rule entries_floats)
  show ?thesis
  proof (cases "full (booths st)")
    case False
    let ?s = "arrival_time v"
    let ?b = "(booths st)\<lparr>entries :=
                map Some (fheappush (?s + voting_duration v) (departures (booths st)))\<rparr>"
    have "loop_after p gen pst std seed (Suc i) =
            Returns (st\<lparr>cur_time := arrival_time v,
                        voters := voters st @ [v\<lparr>start_time := Some ?s,
                                   departure_time := Some (?s + voting_duration v)\<rparr>],
                        booths := ?b\<rparr>)"
      unfolding next' using v open' single_vote_free [OF False nn, of v]
      by (rule loop_body_admits)
    moreover have "entries ?b = map Some (departures ?b)" by simp
    moreover have "mset (departures ?b) =
        add_mset (?s + voting_duration v) (mset (departures (booths st)))"
      by (simp add: mset_fheappush)
    ultimately show ?thesis
      using False fl by (intro exI [of _ ?s] exI [of _ ?b]) (simp only: if_True simp_thms)
  next
    case True
    let ?E = "Min (set (departures (booths st)))"
    let ?s = "if ?E < arrival_time v then arrival_time v else ?E"
    let ?b = "(booths st)\<lparr>entries :=
                map Some (fheappush (?s + voting_duration v)
                            (fheappop (departures (booths st))))\<rparr>"
    have ne: "entries (booths st) \<noteq> []" using True by (rule full_nonempty)
    have first: "departures (booths st) ! 0 = ?E" using ne hp by (rule earliest_first)
    have "loop_after p gen pst std seed (Suc i) =
            Returns (st\<lparr>cur_time := arrival_time v,
                        voters := voters st @ [v\<lparr>start_time := Some ?s,
                                   departure_time := Some (?s + voting_duration v)\<rparr>],
                        booths := ?b\<rparr>)"
      unfolding next' using v open' single_vote_full [OF True wc nn, of v, unfolded first]
      by (rule loop_body_admits)
    moreover have "entries ?b = map Some (departures ?b)" by simp
    moreover have "mset (departures ?b) =
        add_mset (?s + voting_duration v) (mset (departures (booths st)) - {#?E#})"
      using mset_fheappop [OF departures_nonempty [OF ne]] first
      by (simp add: mset_fheappush)
    ultimately show ?thesis
      using True fl by (intro exI [of _ ?s] exI [of _ ?b]) (simp only: if_False not_not simp_thms)
  qed
qed

lemmas run_defs = p0_def gen0_def loop_body_def loop_init_def
  next_voter_def Voter_init_def closing_time_def simulate_single_vote_def full_def
  enter_eval depart_eval heappush_def heappop_def siftdown.simps siftup.simps parent_def
  less_than_def VotingBooths_init_def Let_def

theorem admission_rule_witness:
  "loop_after p0 gen0 1 2 0 (Suc 0) = Returns st1 \<and> \<not> stopped st1
   \<and> v1 = next_voter p0 gen0 0 (Suc 0) (cur_time st1) 1 2
   \<and> \<not> arrival_time v1 > closing_time p0 \<and> full (booths st1)
   \<and> Min (set (departures (booths st1))) = 70
   \<and> (\<exists>s b'. loop_after p0 gen0 1 2 0 (Suc (Suc 0)) =
            Returns (st1\<lparr>cur_time := arrival_time v1,
                        voters := voters st1 @ [v1\<lparr>start_time := Some s,
                                   departure_time := Some (s + voting_duration v1)\<rparr>],
                        booths := b'\<rparr>)
          \<and> entries (booths st1) = map Some (departures (booths st1))
          \<and> entries b' = map Some (departures b')
          \<and> (if \<not> full (booths st1)
              then s = arrival_time v1
                \<and> mset (departures b') =
                    add_mset (s + voting_duration v1) (mset (departures (booths st1)))
              else s = (if Min (set (departures (booths st1))) < arrival_time v1
                        then arrival_time v1 else Min (set (departures (booths st1))))
                \<and> mset (departures b') =
                    add_mset (s + voting_duration v1)
                      (mset (departures (booths st1))
                         - {#Min (set (departures (booths st1)))#})))"
proof -
  have h1: "loop_after p0 gen0 1 2 0 (Suc 0) = Returns st1"
    by (simp add: run_defs st1_def)
  have h2: "\<not> stopped st1" by (simp add: st1_def)
  have h3: "v1 = next_voter p0 gen0 0 (Suc 0) (cur_time st1) 1 2"
    by (simp add: run_defs st1_def v1_def)
  have h4: "\<not> arrival_time v1 > closing_time p0"
    by (simp add: run_defs v1_def)
  have h5: "full (booths st1)" by (simp add: st1_def full_def)
  have h6: "Min (set (departures (booths st1))) = 70" by (simp add: st1_def departures_def)
  from h1 h2 h3 h4 h5 h6 admission_rule [OF h1 h2 h3 h4] show ?thesis
    by (intro conjI)
qed

subsection \<open>Closing time\<close>

lemma simulate_eq:
  assumes "loop_after p gen pst std seed (nat (max_num_voters p)) = Returns st"
  shows "simulate p gen pst std seed = Returns (voters st)"
  using assms by (simp add: simulate_def)

text \<open>
  C2. A trial admits, in the order of generation, exactly the voters generated before the
  first one whose arrival time is after the closing time (\<open>hours_open * 60\<close>), among
  the first \<open>max_num_voters\<close>: the list returned holds their arrival times and voting
  durations, each of them resolved by the admission step, and the loop has stopped early
  exactly when a voter arriving after closing was generated. That voter is not in the
  list and not in the pool: the pool holds departure times of listed voters only, one for
  each listed voter up to the number of booths.
\<close>

theorem closing_time_rule:
  "\<exists>st. loop_after p gen pst std seed (nat (max_num_voters p)) = Returns st
     \<and> simulate p gen pst std seed = Returns (voters st)
     \<and> map arrival_time (voters st) =
         takeWhile (\<lambda>t. t \<le> closing_time p)
           (map (arrival p gen pst std seed) [0..<nat (max_num_voters p)])
     \<and> map voting_duration (voters st) =
         map (\<lambda>k. snd (draw p gen pst std seed k)) [0..<length (voters st)]
     \<and> (stopped st \<longleftrightarrow>
           (\<exists>j<nat (max_num_voters p). arrival p gen pst std seed j > closing_time p))
     \<and> list_all resolved (voters st)
     \<and> mset (entries (booths st)) \<subseteq># mset (map departure_time (voters st))
     \<and> int (length (entries (booths st))) =
          (if 0 < num_booths p then min (int (length (voters st))) (num_booths p)
           else int (length (voters st)))"
proof -
  from loop_after_ok [of p gen pst std seed "nat (max_num_voters p)"] obtain st where
    st: "loop_after p gen pst std seed (nat (max_num_voters p)) = Returns st"
    and ok: "state_ok p (nat (max_num_voters p)) st" by blast
  from st have "on_schedule p gen pst std seed (nat (max_num_voters p)) st"
    by (rule loop_after_schedule)
  moreover from ok have "list_all resolved (voters st)"
    "mset (entries (booths st)) \<subseteq># mset (map departure_time (voters st))"
    "int (length (entries (booths st))) =
          (if 0 < num_booths p then min (int (length (voters st))) (num_booths p)
           else int (length (voters st)))"
    by (simp_all add: state_ok_def)
  ultimately show ?thesis
    using st simulate_eq [OF st] unfolding on_schedule_def by blast
qed

theorem closing_time_rule_witness:
  "closing_time p0 = 60
   \<and> map (arrival p0 gen0 1 2 0) [0..<nat (max_num_voters p0)] = [30, 60, 90]
   \<and> (\<exists>st. loop_after p0 gen0 1 2 0 (nat (max_num_voters p0)) = Returns st
     \<and> simulate p0 gen0 1 2 0 = Returns (voters st)
     \<and> map arrival_time (voters st) =
         takeWhile (\<lambda>t. t \<le> closing_time p0)
           (map (arrival p0 gen0 1 2 0) [0..<nat (max_num_voters p0)])
     \<and> map voting_duration (voters st) =
         map (\<lambda>k. snd (draw p0 gen0 1 2 0 k)) [0..<length (voters st)]
     \<and> (stopped st \<longleftrightarrow>
           (\<exists>j<nat (max_num_voters p0). arrival p0 gen0 1 2 0 j > closing_time p0))
     \<and> list_all resolved (voters st)
     \<and> mset (entries (booths st)) \<subseteq># mset (map departure_time (voters st))
     \<and> int (length (entries (booths st))) =
          (if 0 < num_booths p0 then min (int (length (voters st))) (num_booths p0)
           else int (length (voters st))))"
proof -
  have "closing_time p0 = 60" by (simp add: closing_time_def p0_def)
  moreover have "map (arrival p0 gen0 1 2 0) [0..<nat (max_num_voters p0)] = [30, 60, 90]"
    by (simp add: p0_def gen0_def draw_def eval_nat_numeral upt_rec)
  ultimately show ?thesis
    using closing_time_rule [of p0 gen0 1 2 0] by blast
qed

subsection \<open>Resolved voters\<close>

text \<open>
  C3. Every voter of the list a trial returns has both scheduling fields set, a start
  time not before the arrival time and a departure time equal to the start time plus the
  voting duration, and so has every voter admitted so far after any number of rounds. A
  voter as generated has both fields unset, and the admission step sets both at once.
\<close>

theorem voters_resolved:
  "(\<exists>vs. simulate p gen pst std seed = Returns vs \<and> list_all resolved vs)
   \<and> (\<exists>st. loop_after p gen pst std seed i = Returns st \<and> list_all resolved (voters st))
   \<and> start_time (next_voter p gen seed k t pst std) = None
   \<and> departure_time (next_voter p gen seed k t pst std) = None
   \<and> (within_capacity b \<and> None \<notin> set (entries b) \<longrightarrow>
        (\<exists>v' b'. simulate_single_vote v b = Returns (v', b') \<and> resolved v'))"
proof -
  from loop_after_ok [of p gen pst std seed "nat (max_num_voters p)"] obtain st where
    st: "loop_after p gen pst std seed (nat (max_num_voters p)) = Returns st"
    and ok: "state_ok p (nat (max_num_voters p)) st" by blast
  from ok have "list_all resolved (voters st)" by (simp add: state_ok_def)
  with simulate_eq [OF st]
  have c1: "\<exists>vs. simulate p gen pst std seed = Returns vs \<and> list_all resolved vs" by simp
  from loop_after_ok [of p gen pst std seed i]
  have c2: "\<exists>st. loop_after p gen pst std seed i = Returns st \<and> list_all resolved (voters st)"
    by (auto simp: state_ok_def)
  have c3: "start_time (next_voter p gen seed k t pst std) = None"
    "departure_time (next_voter p gen seed k t pst std) = None"
    by (simp_all add: next_voter_eq Voter_init_def)
  have c4: "\<exists>v' b'. simulate_single_vote v b = Returns (v', b') \<and> resolved v'"
    if wc: "within_capacity b" and nn: "None \<notin> set (entries b)"
  proof -
    from single_vote_step [OF wc nn, of v] obtain s b' where
      "simulate_single_vote v b =
         Returns (v\<lparr>start_time := Some s, departure_time := Some (s + voting_duration v)\<rparr>, b')"
      "arrival_time v \<le> s" by blast
    moreover from this(2)
    have "resolved (v\<lparr>start_time := Some s, departure_time := Some (s + voting_duration v)\<rparr>)"
      by (simp add: resolved_def)
    ultimately show ?thesis by blast
  qed
  from c1 c2 c3 c4 show ?thesis by blast
qed

theorem voters_resolved_witness:
  "simulate p0 gen0 1 2 0 = Returns
     [\<lparr>arrival_time = 30, voting_duration = 40, start_time = Some 30,
        departure_time = Some 70\<rparr>,
      \<lparr>arrival_time = 60, voting_duration = 40, start_time = Some 70,
        departure_time = Some 110\<rparr>]
   \<and> within_capacity (booths st1) \<and> None \<notin> set (entries (booths st1))
   \<and> (\<exists>vs. simulate p0 gen0 1 2 0 = Returns vs \<and> list_all resolved vs)
   \<and> (\<exists>st. loop_after p0 gen0 1 2 0 (Suc 0) = Returns st \<and> list_all resolved (voters st))
   \<and> start_time (next_voter p0 gen0 0 (Suc 0) 30 1 2) = None
   \<and> departure_time (next_voter p0 gen0 0 (Suc 0) 30 1 2) = None
   \<and> (\<exists>v' b'. simulate_single_vote v1 (booths st1) = Returns (v', b') \<and> resolved v')"
proof -
  have r: "simulate p0 gen0 1 2 0 = Returns
     [\<lparr>arrival_time = 30, voting_duration = 40, start_time = Some 30,
        departure_time = Some 70\<rparr>,
      \<lparr>arrival_time = 60, voting_duration = 40, start_time = Some 70,
        departure_time = Some 110\<rparr>]"
    by (simp add: simulate_def eval_nat_numeral run_defs)
  have h: "within_capacity (booths st1)" "None \<notin> set (entries (booths st1))"
    by (simp_all add: st1_def within_capacity_def)
  from r h voters_resolved [of p0 gen0 1 2 0 "Suc 0" "Suc 0" 30 "booths st1" v1]
  show ?thesis by blast
qed

subsection \<open>Enough booths\<close>

lemma loop_body_no_wait:
  assumes nf: "\<not> full (booths st)" and nn: "None \<notin> set (entries (booths st))"
    and nw: "list_all no_wait (voters st)"
    and body: "loop_body p gen pst std seed i st = Returns st'"
  shows "list_all no_wait (voters st')"
proof -
  let ?v = "next_voter p gen seed i (cur_time st) pst std"
  show ?thesis
  proof (cases "arrival_time ?v > closing_time p")
    case True
    with body nw show ?thesis by (auto simp: loop_body_def Let_def)
  next
    case False
    from loop_body_admits [OF refl False single_vote_free [OF nf nn, of ?v]] body
    have "voters st' = voters st @ [?v\<lparr>start_time := Some (arrival_time ?v),
            departure_time := Some (arrival_time ?v + voting_duration ?v)\<rparr>]"
      by auto
    with nw show ?thesis by (simp add: no_wait_def)
  qed
qed

lemma loop_after_no_wait:
  assumes "\<And>j. j < i \<Longrightarrow> int j < num_booths p"
    and "loop_after p gen pst std seed i = Returns st"
  shows "list_all no_wait (voters st)"
  using assms
proof (induction i arbitrary: st)
  case 0
  then show ?case by (auto simp: loop_init_def)
next
  case (Suc i)
  from loop_after_ok [of p gen pst std seed i] obtain st0 where
    st0: "loop_after p gen pst std seed i = Returns st0" and ok: "state_ok p i st0" by blast
  have nw0: "list_all no_wait (voters st0)"
    using Suc.prems(1) st0 by (intro Suc.IH) auto
  show ?case
  proof (cases "stopped st0")
    case True
    with Suc.prems(2) st0 nw0 show ?thesis by simp
  next
    case False
    from Suc.prems(1) [of i] have "int i < num_booths p" by simp
    with ok have nf: "\<not> full (booths st0)"
      by (auto simp: state_ok_def full_def split: if_splits)
    from ok have nn: "None \<notin> set (entries (booths st0))" by (simp add: state_ok_def)
    from False Suc.prems(2) st0 have "loop_body p gen pst std seed i st0 = Returns st" by simp
    with nf nn nw0 show ?thesis by (rule loop_body_no_wait)
  qed
qed

text \<open>
  C7. When there are at least as many booths as \<open>max_num_voters\<close> and every generated
  gap is positive, every voter of the list a trial returns starts at the arrival time.
\<close>

theorem enough_booths_no_wait:
  assumes "max_num_voters p \<le> num_booths p"
    and "\<forall>k. 0 < fst (draw p gen pst std seed k)"
  shows "\<exists>vs. simulate p gen pst std seed = Returns vs \<and> list_all no_wait vs"
proof -
  from loop_after_ok [of p gen pst std seed "nat (max_num_voters p)"] obtain st where
    st: "loop_after p gen pst std seed (nat (max_num_voters p)) = Returns st" by blast
  have "\<And>j. j < nat (max_num_voters p) \<Longrightarrow> int j < num_booths p"
    using assms(1) by linarith
  then have "list_all no_wait (voters st)"
    using st by (rule loop_after_no_wait)
  with simulate_eq [OF st] show ?thesis by simp
qed

theorem enough_booths_no_wait_witness:
  "max_num_voters p3 \<le> num_booths p3 \<and> (\<forall>k. 0 < fst (draw p3 gen0 1 2 0 k))
   \<and> simulate p3 gen0 1 2 0 = Returns
     [\<lparr>arrival_time = 30, voting_duration = 40, start_time = Some 30,
        departure_time = Some 70\<rparr>,
      \<lparr>arrival_time = 60, voting_duration = 40, start_time = Some 60,
        departure_time = Some 100\<rparr>,
      \<lparr>arrival_time = 90, voting_duration = 40, start_time = Some 90,
        departure_time = Some 130\<rparr>]
   \<and> (\<exists>vs. simulate p3 gen0 1 2 0 = Returns vs \<and> list_all no_wait vs)"
proof -
  have h1: "max_num_voters p3 \<le> num_booths p3" by (simp add: p3_def)
  have h2: "\<forall>k. 0 < fst (draw p3 gen0 1 2 0 k)" by (simp add: draw_def gen0_def)
  have "simulate p3 gen0 1 2 0 = Returns
     [\<lparr>arrival_time = 30, voting_duration = 40, start_time = Some 30,
        departure_time = Some 70\<rparr>,
      \<lparr>arrival_time = 60, voting_duration = 40, start_time = Some 60,
        departure_time = Some 100\<rparr>,
      \<lparr>arrival_time = 90, voting_duration = 40, start_time = Some 90,
        departure_time = Some 130\<rparr>]"
    by (simp add: simulate_def eval_nat_numeral p3_def run_defs)
  with h1 h2 enough_booths_no_wait [OF h1 h2] show ?thesis by blast
qed

subsection \<open>Capacity of the pool\<close>

lemma depart_shrinks:
  assumes "None \<notin> set (entries b)" "depart b = (Returns e, b1)"
  shows "length (entries b1) < length (entries b)"
proof -
  from assms(2) have ne: "entries b \<noteq> []" by (auto simp: depart_eval split: if_splits)
  from depart_floats [OF ne assms(1)] assms(2)
  have "entries b1 = map Some (fheappop (departures b))" by auto
  with length_fheappop [OF departures_nonempty [OF ne]] show ?thesis by simp
qed

text \<open>
  C8. With at least one booth, the pool holds at most \<open>num_booths\<close> departure times
  after any number of rounds of a trial, and the eviction inside a round only lowers the
  count. (With \<open>num_booths = 0\<close> the queue is unbounded: see the counterexample.)
\<close>

theorem pool_within_capacity:
  assumes "1 \<le> num_booths p"
  shows "\<exists>st. loop_after p gen pst std seed i = Returns st
           \<and> maxsize (booths st) = num_booths p
           \<and> int (length (entries (booths st))) \<le> num_booths p
           \<and> (\<forall>e b1. depart (booths st) = (Returns e, b1)
                 \<longrightarrow> length (entries b1) < length (entries (booths st)))"
proof -
  from loop_after_ok [of p gen pst std seed i] obtain st where
    st: "loop_after p gen pst std seed i = Returns st" and ok: "state_ok p i st" by blast
  from ok assms have "maxsize (booths st) = num_booths p"
    "int (length (entries (booths st))) \<le> num_booths p"
    by (auto simp: state_ok_def within_capacity_def)
  moreover from ok have "None \<notin> set (entries (booths st))" by (simp add: state_ok_def)
  ultimately show ?thesis using st depart_shrinks by blast
qed

theorem pool_within_capacity_witness:
  "1 \<le> num_booths p0
   \<and> loop_after p0 gen0 1 2 0 (Suc (Suc 0)) = Returns
       (st1\<lparr>cur_time := 60,
            voters := voters st1 @ [v1\<lparr>start_time := Some 70, departure_time := Some 110\<rparr>],
            booths := \<lparr>maxsize = 1, entries = [Some 110]\<rparr>\<rparr>)
   \<and> (\<exists>st. loop_after p0 gen0 1 2 0 (Suc (Suc 0)) = Returns st
           \<and> maxsize (booths st) = num_booths p0
           \<and> int (length (entries (booths st))) \<le> num_booths p0
           \<and> (\<forall>e b1. depart (booths st) = (Returns e, b1)
                 \<longrightarrow> length (entries b1) < length (entries (booths st))))"
proof -
  have h: "1 \<le> num_booths p0" by (simp add: p0_def)
  have "loop_after p0 gen0 1 2 0 (Suc (Suc 0)) = Returns
       (st1\<lparr>cur_time := 60,
            voters := voters st1 @ [v1\<lparr>start_time := Some 70, departure_time := Some 110\<rparr>],
            booths := \<lparr>maxsize = 1, entries = [Some 110]\<rparr>\<rparr>)"
    by (simp add: run_defs st1_def v1_def)
  with h pool_within_capacity [OF h, of gen0 1 2 0 "Suc (Suc 0)"] show ?thesis by blast
qed

theorem pool_unbounded_counterexample:
  "loop_after pz gen0 1 2 0 (Suc 0) = Returns stz
   \<and> num_booths pz < int (length (entries (booths stz)))"
  by (simp add: pz_def stz_def gen0_def loop_body_def loop_init_def next_voter_def
      Voter_init_def closing_time_def simulate_single_vote_def full_def enter_eval
      heappush_def siftdown.simps VotingBooths_init_def Let_def)

subsection \<open>Entering a full pool\<close>

text \<open>
  C10. Calling \<open>enter\<close> on a pool that is already full neither raises an error nor
  returns: the call waits in the loop of the queue's blocking \<^verbatim>\<open>put\<close>, which never
  ends, and the pool is left as it was. The admission step never makes such a call: after
  any number of rounds of a trial, a pool that is full is not full any more once the
  earliest departure has left it, which is when the step calls \<open>enter\<close>.
\<close>

theorem enter_full_blocks:
  "(full b \<longrightarrow>
      wait_not_full b = None \<and> enter v b = (Blocks, b) \<and> \<not> raises (fst (enter v b)))
   \<and> (\<exists>st. loop_after p gen pst std seed i = Returns st
         \<and> (full (booths st) \<longrightarrow>
               (\<exists>e b1. depart (booths st) = (Returns e, b1) \<and> \<not> full b1)))"
proof -
  have waits: "wait_not_full b = None \<and> enter v b = (Blocks, b)
      \<and> \<not> raises (fst (enter v b))" if f: "full b"
  proof -
    from f have "maxsize b \<le> int (length (entries b))" by (simp add: full_def)
    then have "wait_not_full b = None" by (rule wait_not_full_never)
    moreover from f have "enter v b = (Blocks, b)" by (simp add: enter_eval)
    ultimately show ?thesis by (simp add: raises_def)
  qed
  from loop_after_ok [of p gen pst std seed i] obtain st where
    st: "loop_after p gen pst std seed i = Returns st" and ok: "state_ok p i st" by blast
  have "\<exists>e b1. depart (booths st) = (Returns e, b1) \<and> \<not> full b1" if f: "full (booths st)"
  proof -
    let ?b = "booths st"
    from ok have wc: "within_capacity ?b" and nn: "None \<notin> set (entries ?b)"
      by (simp_all add: state_ok_def)
    have ne: "entries ?b \<noteq> []" using f by (rule full_nonempty)
    have len: "Suc (length (fheappop (departures ?b))) = length (entries ?b)"
      using length_fheappop [OF departures_nonempty [OF ne]] by simp
    from f wc have "int (length (entries ?b)) = maxsize ?b"
      by (auto simp: full_def within_capacity_def)
    with len have "\<not> full (?b\<lparr>entries := map Some (fheappop (departures ?b))\<rparr>)"
      by (simp add: full_def)
    with depart_floats [OF ne nn] show ?thesis by blast
  qed
  with st waits show ?thesis by blast
qed

theorem enter_full_blocks_witness:
  "full (booths st1)
   \<and> loop_after p0 gen0 1 2 0 (Suc 0) = Returns st1
   \<and> wait_not_full (booths st1) = None
   \<and> enter (v1\<lparr>start_time := Some 70, departure_time := Some 110\<rparr>) (booths st1)
        = (Blocks, booths st1)
   \<and> \<not> raises (fst (enter (v1\<lparr>start_time := Some 70, departure_time := Some 110\<rparr>)
                         (booths st1)))
   \<and> (\<exists>e b1. depart (booths st1) = (Returns e, b1) \<and> \<not> full b1)"
proof -
  have h: "full (booths st1)" by (simp add: st1_def full_def)
  have r: "loop_after p0 gen0 1 2 0 (Suc 0) = Returns st1"
    by (simp add: run_defs st1_def)
  from enter_full_blocks [of "booths st1" "v1\<lparr>start_time := Some 70, departure_time := Some 110\<rparr>"
      p0 gen0 1 2 0 "Suc 0"] h r
  show ?thesis by auto
qed

theorem enter_full_counterexample:
  "full \<lparr>maxsize = 1, entries = [Some 70]\<rparr>
   \<and> fst (enter \<lparr>arrival_time = 60, voting_duration = 40, start_time = Some 70,
                  departure_time = Some 110\<rparr> \<lparr>maxsize = 1, entries = [Some 70]\<rparr>) = Blocks
   \<and> \<not> raises (fst (enter \<lparr>arrival_time = 60, voting_duration = 40, start_time = Some 70,
                     departure_time = Some 110\<rparr> \<lparr>maxsize = 1, entries = [Some 70]\<rparr>))"
  by (simp add: full_def enter_eval raises_def)

subsection \<open>The averages of the trials\<close>

lemma simulate_returns:
  "\<exists>vs. simulate p gen pst std seed = Returns vs \<and> list_all resolved vs"
proof -
  from loop_after_ok [of p gen pst std seed "nat (max_num_voters p)"] obtain st where
    st: "loop_after p gen pst std seed (nat (max_num_voters p)) = Returns st"
    and ok: "state_ok p (nat (max_num_voters p)) st" by blast
  from ok have "list_all resolved (voters st)" by (simp add: state_ok_def)
  with simulate_eq [OF st] show ?thesis by simp
qed

lemma simulate_trial:
  "simulate (Precinct_init d) gen pst (cfg_straight_ticket_duration d) (seed + int i) =
     Returns (trial gen d pst seed i)"
  using simulate_returns [of "Precinct_init d" gen pst "cfg_straight_ticket_duration d" "seed + int i"]
  by (auto simp: trial_def)

lemma trial_resolved: "list_all resolved (trial gen d pst seed i)"
  using simulate_returns [of "Precinct_init d" gen pst "cfg_straight_ticket_duration d" "seed + int i"]
  by (auto simp: trial_def)

lemma py_sum_Some: "py_sum acc (map Some xs) = Returns (acc + sum_list xs)"
  by (induction xs arbitrary: acc) (simp_all add: add.assoc)

lemma get_wait_resolved:
  assumes "list_all resolved vs"
  shows "map get_wait vs = map Some (map wait vs)"
  using assms
  by (induction vs) (auto simp: resolved_def get_wait_def wait_def split: option.splits)

lemma trial_avg_resolved:
  assumes "list_all resolved vs"
  shows "trial_avg vs = (if vs = [] then Raises ZeroDivisionError else Returns (mean_wait vs))"
proof -
  have "py_sum 0 (map get_wait vs) = Returns (sum_list (map wait vs))"
    unfolding get_wait_resolved [OF assms] py_sum_Some by (simp only: add_0)
  then show ?thesis
    by (simp add: trial_avg_def mean_wait_def)
qed

lemma avg_wait_loop_eq:
  "avg_wait_loop gen d pst seed n =
     (if \<exists>i<n. trial gen d pst seed i = [] then Raises ZeroDivisionError
      else Returns (map (\<lambda>i. mean_wait (trial gen d pst seed i)) [0..<n]))"
proof (induction n)
  case 0
  show ?case by simp
next
  case (Suc n)
  have split: "(\<exists>i<Suc n. trial gen d pst seed i = []) \<longleftrightarrow>
      (\<exists>i<n. trial gen d pst seed i = []) \<or> trial gen d pst seed n = []"
    by (auto simp: less_Suc_eq)
  show ?case
    unfolding split
    by (simp add: Suc.IH simulate_trial trial_avg_resolved [OF trial_resolved])
qed

subsection \<open>The median\<close>

lemma py_index_in_range:
  assumes "0 \<le> i" "i < int (length xs)"
  shows "py_index xs i = Returns (xs ! nat i)"
  using assms by (simp add: py_index_def)

lemma median_of_in_range:
  assumes "1 \<le> ntrials" "int (length l) = ntrials"
  shows "median_of l ntrials = Returns (sort l ! nat (ntrials div 2))"
proof -
  have "0 \<le> ntrials div 2" "ntrials div 2 < int (length (sort l))"
    using assms by simp_all
  then show ?thesis
    unfolding median_of_def by (rule py_index_in_range)
qed

lemma median_of_no_trials:
  assumes "ntrials \<le> 0"
  shows "median_of [] ntrials = Raises IndexError"
  using assms by (simp add: median_of_def py_index_def)

lemma length_avg_wait_loop:
  assumes "avg_wait_loop gen d pst seed n = Returns l"
  shows "length l = n"
  using assms unfolding avg_wait_loop_eq by (auto split: if_splits)

text \<open>
  C4. For a list of \<open>ntrials \<ge> 1\<close> averages, the last step of the aggregator returns
  the element at index \<open>ntrials div 2\<close> of the list sorted in ascending order, and so
  does \<open>find_avg_wait_time\<close> on the averages its loop has collected; for
  \<open>[3, 1, 2]\<close> it is 2 and for \<open>[1, 2, 3, 4]\<close> it is 3.
\<close>

theorem median_rule:
  "(1 \<le> ntrials \<and> int (length l) = ntrials \<longrightarrow>
      median_of l ntrials = Returns (sort l ! nat (ntrials div 2)))
   \<and> (1 \<le> ntrials \<and> avg_wait_loop gen d pst seed (nat ntrials) = Returns l \<longrightarrow>
      find_avg_wait_time gen d pst ntrials seed = Returns (sort l ! nat (ntrials div 2)))
   \<and> median_of [3, 1, 2] 3 = Returns 2
   \<and> median_of [1, 2, 3, 4] 4 = Returns 3"
proof (intro conjI impI)
  assume "1 \<le> ntrials \<and> int (length l) = ntrials"
  then show "median_of l ntrials = Returns (sort l ! nat (ntrials div 2))"
    by (simp add: median_of_in_range)
next
  assume a: "1 \<le> ntrials \<and> avg_wait_loop gen d pst seed (nat ntrials) = Returns l"
  then have "length l = nat ntrials" by (auto dest: length_avg_wait_loop)
  with a have "int (length l) = ntrials" by simp
  with a show "find_avg_wait_time gen d pst ntrials seed = Returns (sort l ! nat (ntrials div 2))"
    by (simp add: find_avg_wait_time_def median_of_in_range)
next
  show "median_of [3, 1, 2] 3 = Returns 2"
    by (simp add: median_of_def py_index_def)
next
  show "median_of [1, 2, 3, 4] 4 = Returns 3"
    by (simp add: median_of_def py_index_def)
qed

lemmas agg_defs = d0_def Precinct_init_def simulate_def trial_avg_def get_wait_def
  gen0_def loop_body_def loop_init_def next_voter_def Voter_init_def closing_time_def
  simulate_single_vote_def full_def enter_eval depart_eval heappush_def heappop_def
  siftdown.simps siftup.simps parent_def less_than_def VotingBooths_init_def Let_def

theorem median_rule_witness:
  "1 \<le> (3::int) \<and> int (length [15, 5, 10 :: real]) = 3
   \<and> median_of [15, 5, 10] 3 = Returns (sort [15, 5, 10] ! nat (3 div 2))
   \<and> sort [15, 5, 10 :: real] ! nat (3 div 2) = 10
   \<and> avg_wait_loop gen0 d0 1 0 (nat 3) = Returns [5, 10, 15]
   \<and> find_avg_wait_time gen0 d0 1 3 0 = Returns (sort [5, 10, 15] ! nat (3 div 2))
   \<and> median_of [3, 1, 2] 3 = Returns 2
   \<and> median_of [1, 2, 3, 4] 4 = Returns 3"
proof -
  have h1: "1 \<le> (3::int) \<and> int (length [15, 5, 10 :: real]) = 3" by simp
  have h2: "1 \<le> (3::int) \<and> avg_wait_loop gen0 d0 1 0 (nat 3) = Returns [5, 10, 15]"
    by (simp add: agg_defs eval_nat_numeral)
  have h3: "sort [15, 5, 10 :: real] ! nat (3 div 2) = 10" by simp
  note m1 = median_rule [of 3 "[15, 5, 10]" gen0 d0 1 0]
  note m2 = median_rule [of 3 "[5, 10, 15]" gen0 d0 1 0]
  from m1 h1 have c1: "median_of [15, 5, 10] 3 = Returns (sort [15, 5, 10] ! nat (3 div 2))"
    by blast
  from m2 h2 have c2: "find_avg_wait_time gen0 d0 1 3 0 = Returns (sort [5, 10, 15] ! nat (3 div 2))"
    by blast
  from m1 have c3: "median_of [3, 1, 2] 3 = Returns 2" "median_of [1, 2, 3, 4] 4 = Returns 3"
    by blast+
  from h1 h2 h3 c1 c2 c3 show ?thesis by blast
qed

subsection \<open>Seeds and means\<close>

text \<open>
  C5. When no trial is empty, the aggregator runs \<open>ntrials\<close> simulations, trial \<open>i\<close>
  with the seed \<open>initial_seed + i\<close>, and the average it records for each trial is the
  arithmetic mean of start time minus arrival time over the voters of that trial.
\<close>

theorem trials_and_means:
  assumes "\<forall>i<nat ntrials. simulate (Precinct_init d) gen pst (cfg_straight_ticket_duration d)
              (seed + int i) \<noteq> Returns []"
  shows "\<exists>vss. length vss = nat ntrials
     \<and> (\<forall>i<nat ntrials.
           simulate (Precinct_init d) gen pst (cfg_straight_ticket_duration d) (seed + int i)
             = Returns (vss ! i)
           \<and> list_all resolved (vss ! i))
     \<and> avg_wait_loop gen d pst seed (nat ntrials) = Returns (map mean_wait vss)
     \<and> find_avg_wait_time gen d pst ntrials seed = median_of (map mean_wait vss) ntrials"
proof -
  let ?vss = "map (trial gen d pst seed) [0..<nat ntrials]"
  from assms have ne: "\<not> (\<exists>i<nat ntrials. trial gen d pst seed i = [])"
    by (simp add: simulate_trial)
  have loop: "avg_wait_loop gen d pst seed (nat ntrials) = Returns (map mean_wait ?vss)"
    unfolding avg_wait_loop_eq using ne by (simp add: comp_def)
  have "length ?vss = nat ntrials" by simp
  moreover have "\<forall>i<nat ntrials.
           simulate (Precinct_init d) gen pst (cfg_straight_ticket_duration d) (seed + int i)
             = Returns (?vss ! i)
           \<and> list_all resolved (?vss ! i)"
    by (simp add: simulate_trial trial_resolved)
  moreover have "find_avg_wait_time gen d pst ntrials seed = median_of (map mean_wait ?vss) ntrials"
    by (simp only: find_avg_wait_time_def loop obind_simps)
  ultimately show ?thesis using loop by blast
qed

theorem trials_and_means_witness:
  "simulate (Precinct_init d0) gen0 1 (cfg_straight_ticket_duration d0) (0 + int 0) \<noteq> Returns []
   \<and> simulate (Precinct_init d0) gen0 1 (cfg_straight_ticket_duration d0) (0 + int 1) \<noteq> Returns []
   \<and> simulate (Precinct_init d0) gen0 1 (cfg_straight_ticket_duration d0) (0 + int 2) \<noteq> Returns []
   \<and> avg_wait_loop gen0 d0 1 0 (nat 3) = Returns [5, 10, 15]
   \<and> (\<exists>vss. length vss = nat 3
     \<and> (\<forall>i<nat 3.
           simulate (Precinct_init d0) gen0 1 (cfg_straight_ticket_duration d0) (0 + int i)
             = Returns (vss ! i)
           \<and> list_all resolved (vss ! i))
     \<and> avg_wait_loop gen0 d0 1 0 (nat 3) = Returns (map mean_wait vss)
     \<and> find_avg_wait_time gen0 d0 1 3 0 = median_of (map mean_wait vss) 3)"
proof -
  have s: "simulate (Precinct_init d0) gen0 1 (cfg_straight_ticket_duration d0) (0 + int i) =
    Returns
     [\<lparr>arrival_time = 30, voting_duration = 40 + 10 * real i, start_time = Some 30,
        departure_time = Some (70 + 10 * real i)\<rparr>,
      \<lparr>arrival_time = 60, voting_duration = 40 + 10 * real i,
        start_time = Some (70 + 10 * real i),
        departure_time = Some (110 + 20 * real i)\<rparr>]" for i
    by (simp add: agg_defs eval_nat_numeral)
  have h: "\<forall>i<nat 3. simulate (Precinct_init d0) gen0 1 (cfg_straight_ticket_duration d0)
              (0 + int i) \<noteq> Returns []"
    unfolding s by simp
  have l: "avg_wait_loop gen0 d0 1 0 (nat 3) = Returns [5, 10, 15]"
    by (simp add: agg_defs eval_nat_numeral)
  from h l trials_and_means [OF h] show ?thesis
    unfolding s by simp
qed

subsection \<open>Empty trials\<close>

text \<open>
  C9. The aggregator fails on the division by the number of voters exactly when some
  trial admits no voter; for \<open>ntrials \<ge> 1\<close> it returns a value exactly when no trial
  is empty. The average of an empty trial is the failing division.
\<close>

theorem no_voters_admitted:
  "(find_avg_wait_time gen d pst ntrials seed = Raises ZeroDivisionError \<longleftrightarrow>
      (\<exists>i<nat ntrials. simulate (Precinct_init d) gen pst (cfg_straight_ticket_duration d)
                          (seed + int i) = Returns []))
   \<and> (1 \<le> ntrials \<longrightarrow>
        ((\<exists>w. find_avg_wait_time gen d pst ntrials seed = Returns w) \<longleftrightarrow>
         \<not> (\<exists>i<nat ntrials. simulate (Precinct_init d) gen pst (cfg_straight_ticket_duration d)
                          (seed + int i) = Returns [])))
   \<and> trial_avg [] = Raises ZeroDivisionError"
proof -
  let ?empty = "\<exists>i<nat ntrials. trial gen d pst seed i = []"
  let ?l = "map (\<lambda>i. mean_wait (trial gen d pst seed i)) [0..<nat ntrials]"
  have res: "find_avg_wait_time gen d pst ntrials seed =
      (if ?empty then Raises ZeroDivisionError else median_of ?l ntrials)"
    by (auto simp: find_avg_wait_time_def avg_wait_loop_eq)
  have med: "median_of ?l ntrials =
      (if 1 \<le> ntrials then Returns (sort ?l ! nat (ntrials div 2)) else Raises IndexError)"
  proof (cases "1 \<le> ntrials")
    case True
    then show ?thesis by (simp add: median_of_in_range)
  next
    case False
    then have "?l = []" "ntrials \<le> 0" by simp_all
    with False show ?thesis by (simp add: median_of_no_trials)
  qed
  have "trial_avg [] = Raises ZeroDivisionError" by (simp add: trial_avg_def)
  then show ?thesis
    unfolding res med by (simp add: simulate_trial)
qed

theorem no_voters_admitted_witness:
  "simulate (Precinct_init dclosed) gen0 1 (cfg_straight_ticket_duration dclosed) (0 + int 0)
      = Returns []
   \<and> find_avg_wait_time gen0 dclosed 1 3 0 = Raises ZeroDivisionError
   \<and> 1 \<le> (3::int)
   \<and> find_avg_wait_time gen0 d0 1 3 0 = Returns 10
   \<and> \<not> (\<exists>i<nat 3. simulate (Precinct_init d0) gen0 1 (cfg_straight_ticket_duration d0)
                          (0 + int i) = Returns [])
   \<and> trial_avg [] = Raises ZeroDivisionError"
proof -
  have e: "simulate (Precinct_init dclosed) gen0 1 (cfg_straight_ticket_duration dclosed)
      (0 + int 0) = Returns []"
    by (simp add: dclosed_def Precinct_init_def simulate_def gen0_def loop_body_def
        loop_init_def next_voter_def Voter_init_def closing_time_def Let_def eval_nat_numeral)
  then have "\<exists>i<nat 3. simulate (Precinct_init dclosed) gen0 1
      (cfg_straight_ticket_duration dclosed) (0 + int i) = Returns []"
    by (intro exI [of _ 0]) simp
  with no_voters_admitted [of gen0 dclosed 1 3 0]
  have c1: "find_avg_wait_time gen0 dclosed 1 3 0 = Raises ZeroDivisionError" by blast
  have r: "find_avg_wait_time gen0 d0 1 3 0 = Returns 10"
    by (simp add: find_avg_wait_time_def median_of_def py_index_def agg_defs eval_nat_numeral)
  with no_voters_admitted [of gen0 d0 1 3 0]
  have c2: "\<not> (\<exists>i<nat 3. simulate (Precinct_init d0) gen0 1 (cfg_straight_ticket_duration d0)
                          (0 + int i) = Returns [])"
    by simp
  from no_voters_admitted [of gen0 d0 1 3 0] have "trial_avg [] = Raises ZeroDivisionError"
    by blast
  with e c1 r c2 show ?thesis by simp
qed

subsection \<open>The search for the split percentage\<close>

lemma sweep_skip:
  assumes "\<forall>j\<in>set pre. \<exists>u. find_avg_wait_time gen d (1 - real j / 10) ntrials seed = Returns u
              \<and> \<not> u > target"
  shows "sweep gen d target ntrials seed (pre @ rest) = sweep gen d target ntrials seed rest"
  using assms by (induction pre) (auto simp: Let_def)

lemma sweep_hit:
  assumes "find_avg_wait_time gen d (1 - real i / 10) ntrials seed = Returns w" "w > target"
  shows "sweep gen d target ntrials seed (i # rest) = Returns (real i / 10, Some w)"
  using assms by (simp add: Let_def)

text \<open>
  C6. The search tries the split percentages \<open>i / 10\<close> for \<open>i = 0, \<dots>, 10\<close> in
  increasing order, each with the straight percentage \<open>1 - i / 10\<close>, and returns the
  percentage and the median of the first one whose median is greater than the target;
  when none is, it returns \<open>(1, None)\<close>.
\<close>

theorem split_ticket_search:
  "(i \<le> 10 \<and> find_avg_wait_time gen d (1 - real i / 10) ntrials seed = Returns w
      \<and> w > target
      \<and> (\<forall>j<i. \<exists>u. find_avg_wait_time gen d (1 - real j / 10) ntrials seed = Returns u
                   \<and> \<not> u > target)
    \<longrightarrow> find_percent_split_ticket gen d target ntrials seed = Returns (real i / 10, Some w))
   \<and> ((\<forall>j\<le>10. \<exists>u. find_avg_wait_time gen d (1 - real j / 10) ntrials seed = Returns u
                   \<and> \<not> u > target)
    \<longrightarrow> find_percent_split_ticket gen d target ntrials seed = Returns (1, None))"
proof (intro conjI impI)
  assume a: "i \<le> 10 \<and> find_avg_wait_time gen d (1 - real i / 10) ntrials seed = Returns w
      \<and> w > target
      \<and> (\<forall>j<i. \<exists>u. find_avg_wait_time gen d (1 - real j / 10) ntrials seed = Returns u
                   \<and> \<not> u > target)"
  then have "i < 11" by simp
  then have range: "[0..<11] = [0..<i] @ i # [Suc i..<11]"
    using upt_add_eq_append [of 0 i "11 - i"] by (simp add: upt_conv_Cons)
  from a have "\<forall>j\<in>set [0..<i]. \<exists>u.
      find_avg_wait_time gen d (1 - real j / 10) ntrials seed = Returns u \<and> \<not> u > target"
    by simp
  then have "sweep gen d target ntrials seed ([0..<i] @ i # [Suc i..<11]) =
      sweep gen d target ntrials seed (i # [Suc i..<11])"
    by (rule sweep_skip)
  also from a have "\<dots> = Returns (real i / 10, Some w)"
    by (simp add: sweep_hit)
  finally show "find_percent_split_ticket gen d target ntrials seed = Returns (real i / 10, Some w)"
    unfolding find_percent_split_ticket_def range .
next
  assume "\<forall>j\<le>10. \<exists>u. find_avg_wait_time gen d (1 - real j / 10) ntrials seed = Returns u
                   \<and> \<not> u > target"
  then have "\<forall>j\<in>set [0..<11]. \<exists>u.
      find_avg_wait_time gen d (1 - real j / 10) ntrials seed = Returns u \<and> \<not> u > target"
    by simp
  from sweep_skip [OF this, of "[]"]
  show "find_percent_split_ticket gen d target ntrials seed = Returns (1, None)"
    by (simp add: find_percent_split_ticket_def)
qed

theorem split_ticket_search_witness:
  "find_avg_wait_time gen0 d0 (1 - real 0 / 10) 1 0 = Returns 5
   \<and> find_avg_wait_time gen0 d0 (1 - real 1 / 10) 1 0 = Returns 10
   \<and> find_avg_wait_time gen0 d0 (1 - real 2 / 10) 1 0 = Returns 15
   \<and> find_percent_split_ticket gen0 d0 12 1 0 = Returns (real 2 / 10, Some 15)
   \<and> find_percent_split_ticket gen0 d0 100 1 0 = Returns (1, None)"
proof -
  have m: "find_avg_wait_time gen0 d0 (1 - real j / 10) 1 0 = Returns (5 + 5 * real j)" for j
    by (simp add: find_avg_wait_time_def median_of_def py_index_def agg_defs eval_nat_numeral)
  have h1: "(2::nat) \<le> 10 \<and> find_avg_wait_time gen0 d0 (1 - real 2 / 10) 1 0 = Returns 15
      \<and> (15::real) > 12
      \<and> (\<forall>j<2. \<exists>u. find_avg_wait_time gen0 d0 (1 - real j / 10) 1 0 = Returns u
                   \<and> \<not> u > 12)"
    unfolding m by (auto simp: less_Suc_eq eval_nat_numeral)
  have h2: "\<forall>j\<le>10. \<exists>u. find_avg_wait_time gen0 d0 (1 - real j / 10) 1 0 = Returns u
                   \<and> \<not> u > 100"
    unfolding m by auto
  from split_ticket_search [of 2 gen0 d0 1 0 15 12] h1
  have c1: "find_percent_split_ticket gen0 d0 12 1 0 = Returns (real 2 / 10, Some 15)"
    by blast
  from split_ticket_search [of 0 gen0 d0 1 0 0 100] h2
  have c2: "find_percent_split_ticket gen0 d0 100 1 0 = Returns (1, None)"
    by blast
  from m [of 0] m [of 1] m [of 2] c1 c2 show ?thesis by simp
qed

end
